theory Spec2Isabelle
  imports Complex_Main "HOL-Library.Sublist"
begin

section \<open>Replay memories of mushroom\_rl (\<open>mushroom_rl/utils/replay_memory.py\<close>)\<close>

text \<open>
  The module holds four classes: \<open>ReplayMemory\<close> (a ring buffer of transitions),
  \<open>SumTree\<close> (a binary sum tree kept in a flat array), \<open>PrioritizedReplayMemory\<close>
  (a sum tree of transitions with importance-sampling weights) and
  \<open>SequentialReplayMemory\<close> (a FIFO store of whole episodes).

  Modelling conventions.
  \<^item> A Python object is a record; a method takes the record and returns the new one.
  \<^item> A raised exception is \<open>Inl e\<close>, a normal return is \<open>Inr v\<close>.
  \<^item> The two recursive methods of \<open>SumTree\<close> are \<^theory_text>\<open>partial_function\<close>s into
    \<open>option\<close>: \<open>None\<close> is a recursion that never ends (CPython stops it with a
    \<open>RecursionError\<close> once the interpreter stack is exhausted).
  \<^item> \<open>float64\<close>: the type \<open>f64\<close> below carries the finite values, the infinities and
    \<open>nan\<close>, with IEEE 754 rounding to nearest (ties to even), overflow to infinity and
    gradual underflow; the sign of zero is not modelled. The weights of
    \<open>PrioritizedReplayMemory.get\<close> and the writing methods of the sum tree
    (\<open>SumTreeF\<close>) are computed in \<open>f64\<close>. \<open>SumTree\<close> is a second model of the tree, over
    the real numbers and without rounding; it serves the statements that rounding does
    not decide: those about indices, descent and termination, about the leaves (which
    are stored, not computed) and about trees all of whose sums are exact.
  \<^item> Random draws are inputs: a stream \<open>rnd\<close> of coin flips for
    \<open>np.random.choice([left, right])\<close>, unit-interval draws \<open>u\<close> for
    \<open>np.random.uniform\<close>. A statement for all streams is a statement for every outcome
    of the random generator.
\<close>

subsection \<open>Python values and indexing\<close>

datatype py_error = IndexError | TypeError | ValueError

text \<open>
  A transition is the tuple \<open>(state, action, reward, next_state, absorbing, last)\<close>.
\<close>

type_synonym ('s, 'a) transition = "'s \<times> 'a \<times> real \<times> 's \<times> bool \<times> bool"

definition tr_state :: "('s, 'a) transition \<Rightarrow> 's" where
  "tr_state x = fst x"

definition tr_action :: "('s, 'a) transition \<Rightarrow> 'a" where
  "tr_action x = fst (snd x)"

definition tr_reward :: "('s, 'a) transition \<Rightarrow> real" where
  "tr_reward x = fst (snd (snd x))"

definition tr_next_state :: "('s, 'a) transition \<Rightarrow> 's" where
  "tr_next_state x = fst (snd (snd (snd x)))"

definition tr_absorbing :: "('s, 'a) transition \<Rightarrow> bool" where
  "tr_absorbing x = fst (snd (snd (snd (snd x))))"

definition tr_last :: "('s, 'a) transition \<Rightarrow> bool" where
  "tr_last x = snd (snd (snd (snd (snd x))))"

text \<open>
  Indexing a Python list or a numpy array of length \<open>len\<close> with the integer \<open>i\<close>:
  a negative index counts from the end, anything outside \<open>[-len, len)\<close> raises.
\<close>

definition py_index :: "nat \<Rightarrow> int \<Rightarrow> py_error + nat" where
  "py_index len i =
     (if 0 \<le> i \<and> i < int len then Inr (nat i)
      else if - int len \<le> i \<and> i < 0 then Inr (nat (int len + i))
      else Inl IndexError)"

text \<open>The slice \<open>xs[start:end]\<close> for non-negative bounds (bounds are clamped).\<close>

definition py_slice :: "'x list \<Rightarrow> nat \<Rightarrow> nat \<Rightarrow> 'x list" where
  "py_slice xs start end = take (end - start) (drop start xs)"

subsection \<open>\<open>float64\<close> arithmetic\<close>

text \<open>
  A \<open>float64\<close> value is a finite number, an infinity or \<open>nan\<close>. A finite value is
  carried as the real number it denotes.
\<close>

datatype f64 = Fin real | PInf | NInf | NaN

text \<open>Rounding a real number to the nearest integer, ties to the even one.\<close>

definition rne :: "real \<Rightarrow> int" where
  "rne r =
     (let f = \<lfloor>r\<rfloor>; d = r - of_int f in
      if d < 1 / 2 then f
      else if 1 / 2 < d then f + 1
      else if even f then f else f + 1)"

text \<open>
  Rounding a real number to \<open>float64\<close> (IEEE 754 binary64, round to nearest, ties to
  even). A \<open>float64\<close> has 53 significant bits: for \<open>2 ^ e \<le> |x| < 2 ^ (e + 1)\<close> the
  representable numbers are the multiples of \<open>2 ^ (e - 52)\<close>; the exponent \<open>e\<close> is at
  least \<open>-1022\<close> (below that lie the subnormal numbers, multiples of \<open>2 ^ -1074\<close>); a
  rounded value of magnitude \<open>2 ^ 1024\<close> or more is an infinity.
\<close>

definition f64_round :: "real \<Rightarrow> f64" where
  "f64_round x =
     (if x = 0 then Fin 0
      else let e = max \<lfloor>log 2 \<bar>x\<bar>\<rfloor> (- 1022);
               u = 2 powi (e - 52);
               y = u * of_int (rne (x / u))
           in if 2 powi 1024 \<le> \<bar>y\<bar> then (if 0 < x then PInf else NInf) else Fin y)"

fun f64_neg :: "f64 \<Rightarrow> f64" where
  "f64_neg (Fin x) = Fin (- x)"
| "f64_neg PInf = NInf"
| "f64_neg NInf = PInf"
| "f64_neg NaN = NaN"

text \<open>\<open>a + b\<close>: the exact sum, rounded; \<open>inf + (-inf)\<close> is \<open>nan\<close>.\<close>

fun f64_add :: "f64 \<Rightarrow> f64 \<Rightarrow> f64" where
  "f64_add (Fin x) (Fin y) = f64_round (x + y)"
| "f64_add NaN b = NaN"
| "f64_add a NaN = NaN"
| "f64_add PInf NInf = NaN"
| "f64_add NInf PInf = NaN"
| "f64_add PInf b = PInf"
| "f64_add NInf b = NInf"
| "f64_add a PInf = PInf"
| "f64_add a NInf = NInf"

definition f64_sub :: "f64 \<Rightarrow> f64 \<Rightarrow> f64" where
  "f64_sub a b = f64_add a (f64_neg b)"

text \<open>\<open>a * b\<close>: the exact product, rounded; \<open>0 * inf\<close> is \<open>nan\<close>.\<close>

fun f64_mul :: "f64 \<Rightarrow> f64 \<Rightarrow> f64" where
  "f64_mul (Fin x) (Fin y) = f64_round (x * y)"
| "f64_mul NaN b = NaN"
| "f64_mul a NaN = NaN"
| "f64_mul (Fin x) PInf = (if x = 0 then NaN else if 0 < x then PInf else NInf)"
| "f64_mul (Fin x) NInf = (if x = 0 then NaN else if 0 < x then NInf else PInf)"
| "f64_mul PInf (Fin y) = (if y = 0 then NaN else if 0 < y then PInf else NInf)"
| "f64_mul NInf (Fin y) = (if y = 0 then NaN else if 0 < y then NInf else PInf)"
| "f64_mul PInf PInf = PInf"
| "f64_mul NInf NInf = PInf"
| "f64_mul PInf NInf = NInf"
| "f64_mul NInf PInf = NInf"

text \<open>
  \<open>a / b\<close> as numpy computes it (no exception): \<open>0 / 0\<close> and \<open>inf / inf\<close> are \<open>nan\<close>,
  \<open>x / 0\<close> is an infinity with the sign of \<open>x\<close> (zero counts as \<open>+0\<close>).
\<close>

fun f64_div :: "f64 \<Rightarrow> f64 \<Rightarrow> f64" where
  "f64_div (Fin x) (Fin y) =
     (if y = 0 then (if x = 0 then NaN else if 0 < x then PInf else NInf)
      else f64_round (x / y))"
| "f64_div NaN b = NaN"
| "f64_div a NaN = NaN"
| "f64_div (Fin x) PInf = Fin 0"
| "f64_div (Fin x) NInf = Fin 0"
| "f64_div PInf (Fin y) = (if 0 \<le> y then PInf else NInf)"
| "f64_div NInf (Fin y) = (if 0 \<le> y then NInf else PInf)"
| "f64_div PInf b = NaN"
| "f64_div NInf b = NaN"

text \<open>
  \<open>a ** y\<close> for a finite exponent \<open>y\<close> (C \<open>pow\<close>): anything to the power \<open>0\<close> is \<open>1\<close>;
  zero to a negative power is \<open>inf\<close>; a negative base with a non-integer exponent is
  \<open>nan\<close>; the result is rounded, so that it overflows to \<open>inf\<close> and underflows to \<open>0\<close>.
  (The library function may miss the correctly rounded value by one unit in the last
  place; nothing below depends on the last place of a power.)
\<close>

definition f64_pow :: "f64 \<Rightarrow> real \<Rightarrow> f64" where
  "f64_pow a y =
     (if y = 0 then Fin 1
      else case a of
        NaN \<Rightarrow> NaN
      | PInf \<Rightarrow> (if 0 < y then PInf else Fin 0)
      | NInf \<Rightarrow> (if y < 0 then Fin 0
                   else if y = of_int \<lfloor>y\<rfloor> \<and> odd \<lfloor>y\<rfloor> then NInf else PInf)
      | Fin x \<Rightarrow>
          (if 0 < x then f64_round (x powr y)
           else if x = 0 then (if 0 < y then Fin 0 else PInf)
           else if y = of_int \<lfloor>y\<rfloor> then f64_round (x powi \<lfloor>y\<rfloor>)
           else NaN))"

text \<open>
  \<open>a.max()\<close> of a numpy array: \<open>nan\<close> when the array holds a \<open>nan\<close>, \<open>ValueError\<close> for
  an empty array.
\<close>

fun f64_max2 :: "f64 \<Rightarrow> f64 \<Rightarrow> f64" where
  "f64_max2 (Fin x) (Fin y) = Fin (max x y)"
| "f64_max2 NaN b = NaN"
| "f64_max2 a NaN = NaN"
| "f64_max2 PInf b = PInf"
| "f64_max2 a PInf = PInf"
| "f64_max2 NInf b = b"
| "f64_max2 a NInf = a"

definition f64_max :: "f64 list \<Rightarrow> py_error + f64" where
  "f64_max xs = (case xs of [] \<Rightarrow> Inl ValueError | x # rest \<Rightarrow> Inr (foldl f64_max2 x rest))"

subsection \<open>\<open>class SumTree\<close>\<close>

record 'd SumTree =
  st_max_size :: nat
  st_tree :: "real list"
  st_data :: "'d option list"
  st_idx :: nat
  st_full :: bool

text \<open>
  \<open>__init__\<close>: \<open>np.zeros(2 * max_size - 1)\<close> raises \<open>ValueError\<close> for a negative
  dimension, that is for \<open>max_size = 0\<close>.
\<close>

definition SumTree_init :: "nat \<Rightarrow> py_error + 'd SumTree" where
  "SumTree_init max_size =
     (if max_size = 0 then Inl ValueError
      else Inr \<lparr>st_max_size = max_size,
                st_tree = replicate (2 * max_size - 1) 0,
                st_data = replicate max_size None,
                st_idx = 0,
                st_full = False\<rparr>)"

text \<open>
  \<open>_propagate(delta, idx)\<close>: \<open>parent_idx = (idx - 1) // 2\<close> is Python's floor division,
  which is \<open>div\<close> on \<open>int\<close>; for \<open>idx = 0\<close> it is \<open>-1\<close>, which numpy reads as the last
  slot of the array.
\<close>

partial_function (option) SumTree_propagate ::
  "real \<Rightarrow> int \<Rightarrow> real list \<Rightarrow> (py_error + real list) option" where
  "SumTree_propagate delta idx tree =
     (let parent_idx = (idx - 1) div 2 in
      case py_index (length tree) parent_idx of
        Inl e \<Rightarrow> Some (Inl e)
      | Inr j \<Rightarrow>
          (let tree' = tree[j := tree ! j + delta] in
           if parent_idx \<noteq> 0 then SumTree_propagate delta parent_idx tree'
           else Some (Inr tree')))"

text \<open>\<open>update(idx, priorities)\<close>: the loop over \<open>zip(idx, priorities)\<close>.\<close>

fun SumTree_update_loop ::
  "(int \<times> real) list \<Rightarrow> 'd SumTree \<Rightarrow> (py_error + 'd SumTree) option" where
  "SumTree_update_loop [] t = Some (Inr t)"
| "SumTree_update_loop ((i, p) # rest) t =
     (case py_index (length (st_tree t)) i of
        Inl e \<Rightarrow> Some (Inl e)
      | Inr j \<Rightarrow>
          (let delta = p - st_tree t ! j;
               tree1 = (st_tree t)[j := p]
           in case SumTree_propagate delta i tree1 of
                None \<Rightarrow> None
              | Some (Inl e) \<Rightarrow> Some (Inl e)
              | Some (Inr tree2) \<Rightarrow> SumTree_update_loop rest (t\<lparr>st_tree := tree2\<rparr>)))"

definition SumTree_update ::
  "int list \<Rightarrow> real list \<Rightarrow> 'd SumTree \<Rightarrow> (py_error + 'd SumTree) option" where
  "SumTree_update idx priorities t = SumTree_update_loop (zip idx priorities) t"

text \<open>\<open>add(dataset, priority)\<close>: the loop over \<open>zip(dataset, priority)\<close>.\<close>

fun SumTree_add_loop ::
  "('d \<times> real) list \<Rightarrow> 'd SumTree \<Rightarrow> (py_error + 'd SumTree) option" where
  "SumTree_add_loop [] t = Some (Inr t)"
| "SumTree_add_loop ((d, p) # rest) t =
     (let idx = int (st_idx t) + int (st_max_size t) - 1 in
      case py_index (length (st_data t)) (int (st_idx t)) of
        Inl e \<Rightarrow> Some (Inl e)
      | Inr k \<Rightarrow>
          (case SumTree_update [idx] [p] (t\<lparr>st_data := (st_data t)[k := Some d]\<rparr>) of
             None \<Rightarrow> None
           | Some (Inl e) \<Rightarrow> Some (Inl e)
           | Some (Inr t2) \<Rightarrow>
               SumTree_add_loop rest
                 (if st_idx t2 + 1 = st_max_size t2
                  then t2\<lparr>st_idx := 0, st_full := True\<rparr>
                  else t2\<lparr>st_idx := st_idx t2 + 1\<rparr>)))"

definition SumTree_add ::
  "'d list \<Rightarrow> real list \<Rightarrow> 'd SumTree \<Rightarrow> (py_error + 'd SumTree) option" where
  "SumTree_add dataset priority t = SumTree_add_loop (zip dataset priority) t"

text \<open>
  \<open>_retrieve(s, idx)\<close>. The coin \<open>rnd k\<close> decides the \<open>k\<close>-th call of
  \<open>np.random.choice([left, right])\<close>: \<open>True\<close> picks \<open>left\<close>.
\<close>

partial_function (option) SumTree_retrieve ::
  "(nat \<Rightarrow> bool) \<Rightarrow> nat \<Rightarrow> real \<Rightarrow> int \<Rightarrow> real list \<Rightarrow> (py_error + int) option" where
  "SumTree_retrieve rnd k s idx tree =
     (let left = 2 * idx + 1; right = left + 1 in
      if left \<ge> int (length tree) then Some (Inr idx)
      else case py_index (length tree) left of
        Inl e \<Rightarrow> Some (Inl e)
      | Inr l \<Rightarrow>
         (case py_index (length tree) right of
            Inl e \<Rightarrow> Some (Inl e)
          | Inr r \<Rightarrow>
             if tree ! l = tree ! r
             then SumTree_retrieve rnd (Suc k) s (if rnd k then left else right) tree
             else if s \<le> tree ! l then SumTree_retrieve rnd k s left tree
             else SumTree_retrieve rnd k (s - tree ! l) right tree))"

text \<open>\<open>get(s)\<close> returns \<open>(idx, self._tree[idx], self._data[data_idx])\<close>.\<close>

definition SumTree_get ::
  "(nat \<Rightarrow> bool) \<Rightarrow> real \<Rightarrow> 'd SumTree \<Rightarrow> (py_error + int \<times> real \<times> 'd option) option" where
  "SumTree_get rnd s t =
     (case SumTree_retrieve rnd 0 s 0 (st_tree t) of
        None \<Rightarrow> None
      | Some (Inl e) \<Rightarrow> Some (Inl e)
      | Some (Inr idx) \<Rightarrow>
          (let data_idx = idx - int (st_max_size t) + 1 in
           case py_index (length (st_tree t)) idx of
             Inl e \<Rightarrow> Some (Inl e)
           | Inr j \<Rightarrow>
               (case py_index (length (st_data t)) data_idx of
                  Inl e \<Rightarrow> Some (Inl e)
                | Inr dj \<Rightarrow> Some (Inr (idx, st_tree t ! j, st_data t ! dj)))))"

definition SumTree_size :: "'d SumTree \<Rightarrow> nat" where
  "SumTree_size t = (if \<not> st_full t then st_idx t else st_max_size t)"

text \<open>
  \<open>max_p\<close> is \<open>self._tree[-self._max_size:].max()\<close>: the slice starts \<open>max_size\<close> slots
  before the end (at the start when the array is shorter, and \<open>-0\<close> is \<open>0\<close>);
  \<open>max\<close> of an empty array raises \<open>ValueError\<close>.
\<close>

definition SumTree_leaves :: "'d SumTree \<Rightarrow> real list" where
  "SumTree_leaves t =
     (if st_max_size t = 0 then st_tree t
      else drop (length (st_tree t) - st_max_size t) (st_tree t))"

definition SumTree_max_p :: "'d SumTree \<Rightarrow> py_error + real" where
  "SumTree_max_p t =
     (if SumTree_leaves t = [] then Inl ValueError else Inr (Max (set (SumTree_leaves t))))"

definition SumTree_total_p :: "'d SumTree \<Rightarrow> py_error + real" where
  "SumTree_total_p t =
     (case py_index (length (st_tree t)) 0 of
        Inl e \<Rightarrow> Inl e
      | Inr j \<Rightarrow> Inr (st_tree t ! j))"

subsection \<open>\<open>class SumTree\<close>, the tree array in \<open>float64\<close>\<close>

text \<open>
  \<open>self._tree\<close> is \<open>np.zeros(2 * max_size - 1)\<close>, an array of \<open>float64\<close>. The methods that
  write it are given here with \<open>f64\<close> entries: \<open>delta = p - self._tree[i]\<close> and
  \<open>self._tree[parent_idx] += delta\<close> are a \<open>float64\<close> subtraction and addition, each with
  its rounding.
\<close>

record 'd SumTreeF =
  ft_max_size :: nat
  ft_tree :: "f64 list"
  ft_data :: "'d option list"
  ft_idx :: nat
  ft_full :: bool


partial_function (option) SumTreeF_propagate ::
  "f64 \<Rightarrow> int \<Rightarrow> f64 list \<Rightarrow> (py_error + f64 list) option" where
  "SumTreeF_propagate delta idx tree =
     (let parent_idx = (idx - 1) div 2 in
      case py_index (length tree) parent_idx of
        Inl e \<Rightarrow> Some (Inl e)
      | Inr j \<Rightarrow>
          (let tree' = tree[j := f64_add (tree ! j) delta] in
           if parent_idx \<noteq> 0 then SumTreeF_propagate delta parent_idx tree'
           else Some (Inr tree')))"

fun SumTreeF_update_loop ::
  "(int \<times> f64) list \<Rightarrow> 'd SumTreeF \<Rightarrow> (py_error + 'd SumTreeF) option" where
  "SumTreeF_update_loop [] t = Some (Inr t)"
| "SumTreeF_update_loop ((i, p) # rest) t =
     (case py_index (length (ft_tree t)) i of
        Inl e \<Rightarrow> Some (Inl e)
      | Inr j \<Rightarrow>
          (let delta = f64_sub p (ft_tree t ! j);
               tree1 = (ft_tree t)[j := p]
           in case SumTreeF_propagate delta i tree1 of
                None \<Rightarrow> None
              | Some (Inl e) \<Rightarrow> Some (Inl e)
              | Some (Inr tree2) \<Rightarrow> SumTreeF_update_loop rest (t\<lparr>ft_tree := tree2\<rparr>)))"

definition SumTreeF_update ::
  "int list \<Rightarrow> f64 list \<Rightarrow> 'd SumTreeF \<Rightarrow> (py_error + 'd SumTreeF) option" where
  "SumTreeF_update idx priorities t = SumTreeF_update_loop (zip idx priorities) t"

fun SumTreeF_add_loop ::
  "('d \<times> f64) list \<Rightarrow> 'd SumTreeF \<Rightarrow> (py_error + 'd SumTreeF) option" where
  "SumTreeF_add_loop [] t = Some (Inr t)"
| "SumTreeF_add_loop ((d, p) # rest) t =
     (let idx = int (ft_idx t) + int (ft_max_size t) - 1 in
      case py_index (length (ft_data t)) (int (ft_idx t)) of
        Inl e \<Rightarrow> Some (Inl e)
      | Inr k \<Rightarrow>
          (case SumTreeF_update [idx] [p] (t\<lparr>ft_data := (ft_data t)[k := Some d]\<rparr>) of
             None \<Rightarrow> None
           | Some (Inl e) \<Rightarrow> Some (Inl e)
           | Some (Inr t2) \<Rightarrow>
               SumTreeF_add_loop rest
                 (if ft_idx t2 + 1 = ft_max_size t2
                  then t2\<lparr>ft_idx := 0, ft_full := True\<rparr>
                  else t2\<lparr>ft_idx := ft_idx t2 + 1\<rparr>)))"

definition SumTreeF_add ::
  "'d list \<Rightarrow> f64 list \<Rightarrow> 'd SumTreeF \<Rightarrow> (py_error + 'd SumTreeF) option" where
  "SumTreeF_add dataset priority t = SumTreeF_add_loop (zip dataset priority) t"



subsection \<open>\<open>class PrioritizedReplayMemory\<close>\<close>

text \<open>
  \<open>beta\<close> is a callable in the source (\<open>self._beta()\<close>); the record holds the value it
  returns.
\<close>

record ('s, 'a) PrioritizedReplayMemory =
  pr_initial_size :: nat
  pr_max_size :: nat
  pr_alpha :: real
  pr_beta :: real
  pr_epsilon :: real
  pr_tree :: "('s, 'a) transition SumTree"

definition PrioritizedReplayMemory_init ::
  "nat \<Rightarrow> nat \<Rightarrow> real \<Rightarrow> real \<Rightarrow> real \<Rightarrow> py_error + ('s, 'a) PrioritizedReplayMemory" where
  "PrioritizedReplayMemory_init initial_size max_size alpha beta epsilon =
     (case SumTree_init max_size of
        Inl e \<Rightarrow> Inl e
      | Inr t \<Rightarrow> Inr \<lparr>pr_initial_size = initial_size, pr_max_size = max_size,
                       pr_alpha = alpha, pr_beta = beta, pr_epsilon = epsilon, pr_tree = t\<rparr>)"

definition PrioritizedReplayMemory_add ::
  "('s, 'a) transition list \<Rightarrow> real list \<Rightarrow> ('s, 'a) PrioritizedReplayMemory
     \<Rightarrow> (py_error + ('s, 'a) PrioritizedReplayMemory) option" where
  "PrioritizedReplayMemory_add dataset p m =
     (case SumTree_add dataset p (pr_tree m) of
        None \<Rightarrow> None
      | Some (Inl e) \<Rightarrow> Some (Inl e)
      | Some (Inr t) \<Rightarrow> Some (Inr (m\<lparr>pr_tree := t\<rparr>)))"

definition PrioritizedReplayMemory_initialized :: "('s, 'a) PrioritizedReplayMemory \<Rightarrow> bool" where
  "PrioritizedReplayMemory_initialized m = (SumTree_size (pr_tree m) > pr_initial_size m)"

definition PrioritizedReplayMemory_max_priority ::
  "('s, 'a) PrioritizedReplayMemory \<Rightarrow> py_error + real" where
  "PrioritizedReplayMemory_max_priority m =
     (if PrioritizedReplayMemory_initialized m then SumTree_max_p (pr_tree m) else Inr 1)"

text \<open>
  The three lines that compute the weights, in \<open>float64\<close>:
  \<^verbatim>\<open>
  sampling_probabilities = priorities / self._tree.total_p
  is_weight = (self._tree.size * sampling_probabilities) ** -self._beta()
  is_weight /= is_weight.max()
  \<close>
  \<open>self._tree.size\<close> is a Python \<open>int\<close>, converted to \<open>float64\<close> for the product;
  \<open>- self._beta()\<close> is exact.
  \<open>raw_weight\<close> is one entry of \<open>is_weight\<close> before the division by the maximum.
\<close>

definition raw_weight :: "nat \<Rightarrow> f64 \<Rightarrow> real \<Rightarrow> f64 \<Rightarrow> f64" where
  "raw_weight sz total_p beta p =
     f64_pow (f64_mul (f64_round (real sz)) (f64_div p total_p)) (- beta)"

definition is_weight :: "nat \<Rightarrow> f64 \<Rightarrow> real \<Rightarrow> f64 list \<Rightarrow> py_error + f64 list" where
  "is_weight sz total_p beta priorities =
     (let w = map (raw_weight sz total_p beta) priorities in
      case f64_max w of
        Inl e \<Rightarrow> Inl e
      | Inr m \<Rightarrow> Inr (map (\<lambda>x. f64_div x m) w))"

text \<open>
  The loop of \<open>get\<close> over the sampled values: \<open>self._tree.get(s)\<close>, then the payload is
  unpacked into six fields, which raises \<open>TypeError\<close> for the payload \<open>None\<close> of a slot
  that \<open>add\<close> never wrote. \<open>rnds i\<close> is the coin stream of the \<open>i\<close>-th lookup.
\<close>

fun PrioritizedReplayMemory_get_loop ::
  "(nat \<Rightarrow> nat \<Rightarrow> bool) \<Rightarrow> nat \<Rightarrow> real list \<Rightarrow> ('s, 'a) transition SumTree
     \<Rightarrow> (py_error + (int \<times> real \<times> ('s, 'a) transition) list) option" where
  "PrioritizedReplayMemory_get_loop rnds i [] t = Some (Inr [])"
| "PrioritizedReplayMemory_get_loop rnds i (s # samples) t =
     (case SumTree_get (rnds i) s t of
        None \<Rightarrow> None
      | Some (Inl e) \<Rightarrow> Some (Inl e)
      | Some (Inr (idx, p, data)) \<Rightarrow>
          (case data of
             None \<Rightarrow> Some (Inl TypeError)
           | Some x \<Rightarrow>
               (case PrioritizedReplayMemory_get_loop rnds (Suc i) samples t of
                  None \<Rightarrow> None
                | Some (Inl e) \<Rightarrow> Some (Inl e)
                | Some (Inr rest) \<Rightarrow> Some (Inr ((idx, p, x) # rest)))))"

text \<open>
  \<open>get(n_samples)\<close>. \<open>u i\<close> in \<open>[0, 1)\<close> is the draw behind the \<open>i\<close>-th component of
  \<open>np.random.uniform(a, b)\<close>, which is \<open>a[i] + (b[i] - a[i]) * u i\<close>. With
  \<open>n_samples = 0\<close> every array is empty (the division \<open>total_p / 0\<close> on \<open>float64\<close> does not
  raise) and \<open>is_weight.max()\<close> raises \<open>ValueError\<close>. The result is the eight returned
  arrays: states, actions, rewards, next states, absorbing, last, \<open>idxs\<close>, \<open>is_weight\<close>.
  The sampled priorities and \<open>total_p\<close> are entries of the tree array; the weights are
  computed from them in \<open>float64\<close>.
\<close>

definition PrioritizedReplayMemory_get ::
  "nat \<Rightarrow> (nat \<Rightarrow> real) \<Rightarrow> (nat \<Rightarrow> nat \<Rightarrow> bool) \<Rightarrow> ('s, 'a) PrioritizedReplayMemory
     \<Rightarrow> (py_error + 's list \<times> 'a list \<times> real list \<times> 's list \<times> bool list \<times> bool list
           \<times> int list \<times> f64 list) option" where
  "PrioritizedReplayMemory_get n_samples u rnds m =
     (case SumTree_total_p (pr_tree m) of
        Inl e \<Rightarrow> Some (Inl e)
      | Inr total_p \<Rightarrow>
          (let segment = total_p / real n_samples;
               samples = map (\<lambda>i. real i * segment
                                  + (real (i + 1) * segment - real i * segment) * u i)
                             [0..<n_samples]
           in case PrioritizedReplayMemory_get_loop rnds 0 samples (pr_tree m) of
                None \<Rightarrow> None
              | Some (Inl e) \<Rightarrow> Some (Inl e)
              | Some (Inr picked) \<Rightarrow>
                  (case is_weight (SumTree_size (pr_tree m)) (Fin total_p) (pr_beta m)
                          (map (\<lambda>(idx, p, x). Fin p) picked) of
                     Inl e \<Rightarrow> Some (Inl e)
                   | Inr w \<Rightarrow>
                       Some (Inr (map (\<lambda>(idx, p, x). tr_state x) picked,
                                  map (\<lambda>(idx, p, x). tr_action x) picked,
                                  map (\<lambda>(idx, p, x). tr_reward x) picked,
                                  map (\<lambda>(idx, p, x). tr_next_state x) picked,
                                  map (\<lambda>(idx, p, x). tr_absorbing x) picked,
                                  map (\<lambda>(idx, p, x). tr_last x) picked,
                                  map (\<lambda>(idx, p, x). idx) picked,
                                  w)))))"

subsection \<open>\<open>class ReplayMemory\<close>\<close>

text \<open>
  Six parallel Python lists of length \<open>max_size\<close>, filled with \<open>None\<close> by \<open>reset\<close>, and a
  write cursor \<open>_idx\<close>.
\<close>

record ('s, 'a) ReplayMemory =
  rm_initial_size :: nat
  rm_max_size :: nat
  rm_idx :: nat
  rm_full :: bool
  rm_states :: "'s option list"
  rm_actions :: "'a option list"
  rm_rewards :: "real option list"
  rm_next_states :: "'s option list"
  rm_absorbing :: "bool option list"
  rm_last :: "bool option list"

definition ReplayMemory_reset :: "('s, 'a) ReplayMemory \<Rightarrow> ('s, 'a) ReplayMemory" where
  "ReplayMemory_reset m =
     m\<lparr>rm_idx := 0, rm_full := False,
       rm_states := replicate (rm_max_size m) None,
       rm_actions := replicate (rm_max_size m) None,
       rm_rewards := replicate (rm_max_size m) None,
       rm_next_states := replicate (rm_max_size m) None,
       rm_absorbing := replicate (rm_max_size m) None,
       rm_last := replicate (rm_max_size m) None\<rparr>"

text \<open>\<open>__init__\<close> stores the two sizes and calls \<open>reset\<close>, which sets every other field.\<close>

definition ReplayMemory_init :: "nat \<Rightarrow> nat \<Rightarrow> ('s, 'a) ReplayMemory" where
  "ReplayMemory_init initial_size max_size =
     ReplayMemory_reset
       \<lparr>rm_initial_size = initial_size, rm_max_size = max_size, rm_idx = 0, rm_full = False,
        rm_states = [], rm_actions = [], rm_rewards = [], rm_next_states = [],
        rm_absorbing = [], rm_last = []\<rparr>"

text \<open>The assignment \<open>xs[i] = v\<close> on a Python list.\<close>

definition py_setitem :: "'x list \<Rightarrow> int \<Rightarrow> 'x \<Rightarrow> py_error + 'x list" where
  "py_setitem xs i v =
     (case py_index (length xs) i of
        Inl e \<Rightarrow> Inl e
      | Inr k \<Rightarrow> Inr (xs[k := v]))"

text \<open>\<open>add(dataset)\<close>: the loop over the transitions of \<open>dataset\<close>.\<close>

fun ReplayMemory_add ::
  "('s, 'a) transition list \<Rightarrow> ('s, 'a) ReplayMemory \<Rightarrow> py_error + ('s, 'a) ReplayMemory" where
  "ReplayMemory_add [] m = Inr m"
| "ReplayMemory_add (x # dataset) m =
     (case py_setitem (rm_states m) (int (rm_idx m)) (Some (tr_state x)) of
        Inl e \<Rightarrow> Inl e
      | Inr states \<Rightarrow>
     (case py_setitem (rm_actions m) (int (rm_idx m)) (Some (tr_action x)) of
        Inl e \<Rightarrow> Inl e
      | Inr actions \<Rightarrow>
     (case py_setitem (rm_rewards m) (int (rm_idx m)) (Some (tr_reward x)) of
        Inl e \<Rightarrow> Inl e
      | Inr rewards \<Rightarrow>
     (case py_setitem (rm_next_states m) (int (rm_idx m)) (Some (tr_next_state x)) of
        Inl e \<Rightarrow> Inl e
      | Inr next_states \<Rightarrow>
     (case py_setitem (rm_absorbing m) (int (rm_idx m)) (Some (tr_absorbing x)) of
        Inl e \<Rightarrow> Inl e
      | Inr absorbing \<Rightarrow>
     (case py_setitem (rm_last m) (int (rm_idx m)) (Some (tr_last x)) of
        Inl e \<Rightarrow> Inl e
      | Inr lasts \<Rightarrow>
          (let m1 = m\<lparr>rm_states := states, rm_actions := actions, rm_rewards := rewards,
                      rm_next_states := next_states, rm_absorbing := absorbing,
                      rm_last := lasts, rm_idx := rm_idx m + 1\<rparr>
           in ReplayMemory_add dataset
                (if rm_idx m1 = rm_max_size m1 then m1\<lparr>rm_full := True, rm_idx := 0\<rparr>
                 else m1))))))))"

definition ReplayMemory_size :: "('s, 'a) ReplayMemory \<Rightarrow> nat" where
  "ReplayMemory_size m = (if \<not> rm_full m then rm_idx m else rm_max_size m)"

definition ReplayMemory_initialized :: "('s, 'a) ReplayMemory \<Rightarrow> bool" where
  "ReplayMemory_initialized m = (ReplayMemory_size m > rm_initial_size m)"

subsection \<open>\<open>class SequentialReplayMemory\<close>\<close>

text \<open>
  Six lists of episodes (each episode a list of field values), the list \<open>_lengths\<close>, the
  counter \<open>_size\<close> and the carried-over \<open>unfinished_episode\<close>. \<open>_size\<close>, \<open>_max_size\<close> and
  \<open>_unroll_steps\<close> are Python integers.
\<close>

record ('s, 'a) SequentialReplayMemory =
  sq_initial_size :: int
  sq_max_size :: int
  sq_unroll_steps :: int
  sq_lengths :: "int list"
  sq_size :: int
  sq_states :: "'s list list"
  sq_actions :: "'a list list"
  sq_rewards :: "real list list"
  sq_next_states :: "'s list list"
  sq_absorbing :: "bool list list"
  sq_last :: "bool list list"
  sq_unfinished_episode :: "('s, 'a) transition list"

definition SequentialReplayMemory_init ::
  "int \<Rightarrow> int \<Rightarrow> int \<Rightarrow> ('s, 'a) SequentialReplayMemory" where
  "SequentialReplayMemory_init initial_size max_size unroll_steps =
     \<lparr>sq_initial_size = initial_size, sq_max_size = max_size, sq_unroll_steps = unroll_steps,
      sq_lengths = [], sq_size = 0, sq_states = [], sq_actions = [], sq_rewards = [],
      sq_next_states = [], sq_absorbing = [], sq_last = [], sq_unfinished_episode = []\<rparr>"

text \<open>\<open>reset\<close> assigns \<open>_size\<close>, the six lists and \<open>_lengths\<close>, and nothing else.\<close>

definition SequentialReplayMemory_reset ::
  "('s, 'a) SequentialReplayMemory \<Rightarrow> ('s, 'a) SequentialReplayMemory" where
  "SequentialReplayMemory_reset m =
     m\<lparr>sq_size := 0, sq_states := [], sq_actions := [], sq_rewards := [],
       sq_next_states := [], sq_absorbing := [], sq_last := [], sq_lengths := []\<rparr>"

text \<open>
  \<open>_split_dataset(dataset)\<close>. \<open>np.array(dataset, dtype=object)[:, -2]\<close> is the column of the
  \<open>absorbing\<close> flags; on an empty dataset the array has one dimension and the indexing
  raises \<open>IndexError\<close>. \<open>indices\<close> are the positions of the flags that are set, \<open>args\<close> is
  \<open>0\<close> followed by each index plus one, the episodes are the slices between consecutive
  \<open>args\<close>, and \<open>end\<close> keeps the value of the last loop iteration (\<open>0\<close> when there is none).
\<close>

definition SequentialReplayMemory_split_dataset ::
  "('s, 'a) transition list
     \<Rightarrow> py_error + ('s, 'a) transition list list \<times> ('s, 'a) transition list" where
  "SequentialReplayMemory_split_dataset dataset =
     (if dataset = [] then Inl IndexError
      else
        (let indices = filter (\<lambda>i. tr_absorbing (dataset ! i)) [0..<length dataset];
             args = 0 # map (\<lambda>i. i + 1) indices;
             pairs = zip args (tl args);
             episodes = map (\<lambda>(start, end). py_slice dataset start end) pairs;
             end = (if pairs = [] then 0 else snd (last pairs))
         in Inr (episodes, py_slice dataset end (length dataset))))"

text \<open>
  The \<open>while self._size > self._max_size\<close> loop of \<open>add\<close>: seven \<open>pop(0)\<close>, each of which
  raises \<open>IndexError\<close> on an empty list.
\<close>

function SequentialReplayMemory_evict ::
  "('s, 'a) SequentialReplayMemory \<Rightarrow> py_error + ('s, 'a) SequentialReplayMemory" where
  "SequentialReplayMemory_evict m =
     (if sq_size m > sq_max_size m then
        (case sq_states m of [] \<Rightarrow> Inl IndexError | s # states \<Rightarrow>
        (case sq_actions m of [] \<Rightarrow> Inl IndexError | a # actions \<Rightarrow>
        (case sq_rewards m of [] \<Rightarrow> Inl IndexError | r # rewards \<Rightarrow>
        (case sq_next_states m of [] \<Rightarrow> Inl IndexError | ss # next_states \<Rightarrow>
        (case sq_absorbing m of [] \<Rightarrow> Inl IndexError | ab # absorbing \<Rightarrow>
        (case sq_last m of [] \<Rightarrow> Inl IndexError | l # lasts \<Rightarrow>
        (case sq_lengths m of [] \<Rightarrow> Inl IndexError | n # lengths \<Rightarrow>
           SequentialReplayMemory_evict
             (m\<lparr>sq_size := sq_size m - int (length s), sq_states := states,
                sq_actions := actions, sq_rewards := rewards, sq_next_states := next_states,
                sq_absorbing := absorbing, sq_last := lasts, sq_lengths := lengths\<rparr>))))))))
      else Inr m)"
  by pat_completeness auto
termination
  by (relation "measure (\<lambda>m. length (sq_states m))") auto

declare SequentialReplayMemory_evict.simps [simp del]

text \<open>
  The body of the loop \<open>for episode in episodes\<close>: an episode is stored when
  \<open>unroll_steps <= len(episode) < max_size\<close>, then the oldest episodes are evicted.
  \<open>added\<close> counts the stored episodes.
\<close>

fun SequentialReplayMemory_add_episodes ::
  "('s, 'a) transition list list \<Rightarrow> nat \<Rightarrow> ('s, 'a) SequentialReplayMemory
     \<Rightarrow> py_error + ('s, 'a) SequentialReplayMemory \<times> nat" where
  "SequentialReplayMemory_add_episodes [] added m = Inr (m, added)"
| "SequentialReplayMemory_add_episodes (episode # episodes) added m =
     (if sq_unroll_steps m \<le> int (length episode) \<and> int (length episode) < sq_max_size m then
        (case SequentialReplayMemory_evict
                (m\<lparr>sq_states := sq_states m @ [map tr_state episode],
                   sq_actions := sq_actions m @ [map tr_action episode],
                   sq_rewards := sq_rewards m @ [map tr_reward episode],
                   sq_next_states := sq_next_states m @ [map tr_next_state episode],
                   sq_absorbing := sq_absorbing m @ [map tr_absorbing episode],
                   sq_last := sq_last m @ [map tr_last episode],
                   sq_size := sq_size m + int (length episode),
                   sq_lengths := sq_lengths m @ [int (length episode)]\<rparr>) of
           Inl e \<Rightarrow> Inl e
         | Inr m' \<Rightarrow> SequentialReplayMemory_add_episodes episodes (added + 1) m')
      else SequentialReplayMemory_add_episodes episodes added m)"

text \<open>
  \<open>add(dataset)\<close>. When \<open>_split_dataset\<close> raises, the assignment to
  \<open>unfinished_episode\<close> does not happen and the memory is unchanged.
\<close>

definition SequentialReplayMemory_add ::
  "('s, 'a) transition list \<Rightarrow> ('s, 'a) SequentialReplayMemory
     \<Rightarrow> py_error + ('s, 'a) SequentialReplayMemory \<times> nat" where
  "SequentialReplayMemory_add dataset m =
     (case SequentialReplayMemory_split_dataset (sq_unfinished_episode m @ dataset) of
        Inl e \<Rightarrow> Inl e
      | Inr (episodes, unfinished) \<Rightarrow>
          SequentialReplayMemory_add_episodes episodes 0
            (m\<lparr>sq_unfinished_episode := unfinished\<rparr>))"

definition SequentialReplayMemory_size :: "('s, 'a) SequentialReplayMemory \<Rightarrow> int" where
  "SequentialReplayMemory_size m = sq_size m"

definition SequentialReplayMemory_initialized :: "('s, 'a) SequentialReplayMemory \<Rightarrow> bool" where
  "SequentialReplayMemory_initialized m = (sq_size m > sq_initial_size m)"

subsection \<open>Auxiliary notions for the statements and proofs\<close>

text \<open>
  The tree is laid out in the array as a heap: the children of node \<open>i\<close> are
  \<open>2 * i + 1\<close> and \<open>2 * i + 2\<close>, its parent is \<open>(i - 1) div 2\<close>. \<open>anc k i\<close>: node \<open>k\<close>
  is \<open>i\<close> or an ancestor of \<open>i\<close>.
\<close>

fun anc :: "nat \<Rightarrow> nat \<Rightarrow> bool" where
  "anc k i = (if k = i then True else if i = 0 then False else anc k ((i - 1) div 2))"

declare anc.simps [simp del]

text \<open>The sum invariant: every node with two children holds the sum of their values.\<close>

definition sum_inv :: "real list \<Rightarrow> bool" where
  "sum_inv tree = (\<forall>i. 2 * i + 2 < length tree \<longrightarrow> tree ! i = tree ! (2 * i + 1) + tree ! (2 * i + 2))"

text \<open>
  A sequence of calls of \<open>add\<close> and \<open>update\<close> on one tree. A call is admissible for
  capacity \<open>n\<close> when it is an \<open>add\<close>, or an \<open>update\<close> all of whose indices are tree
  indices of leaves, \<open>n - 1 \<le> i \<le> 2 * n - 2\<close>. \<open>SumTree_run\<close> stops at the first call that
  raises or does not return.
\<close>

datatype 'd SumTree_call = Add "'d list" "real list" | Update "int list" "real list"

fun SumTree_call_ok :: "nat \<Rightarrow> 'd SumTree_call \<Rightarrow> bool" where
  "SumTree_call_ok n (Add dataset priority) = True"
| "SumTree_call_ok n (Update idx priorities) =
     list_all (\<lambda>i. int n - 1 \<le> i \<and> i \<le> 2 * int n - 2) idx"

fun SumTree_run :: "'d SumTree_call list \<Rightarrow> 'd SumTree \<Rightarrow> (py_error + 'd SumTree) option" where
  "SumTree_run [] t = Some (Inr t)"
| "SumTree_run (c # cs) t =
     (case (case c of Add dataset priority \<Rightarrow> SumTree_add dataset priority t
                    | Update idx priorities \<Rightarrow> SumTree_update idx priorities t) of
        None \<Rightarrow> None
      | Some (Inl e) \<Rightarrow> Some (Inl e)
      | Some (Inr t') \<Rightarrow> SumTree_run cs t')"

text \<open>
  A tree of capacity \<open>n\<close> is well formed when its arrays have the lengths the constructor
  gives them and the cursor is inside the data array. \<open>SumTree_inv\<close> adds the sum
  invariant and that the root is the sum of the leaves.
\<close>

definition SumTree_wf :: "nat \<Rightarrow> 'd SumTree \<Rightarrow> bool" where
  "SumTree_wf n t =
     (st_max_size t = n \<and> length (st_tree t) = 2 * n - 1 \<and> length (st_data t) = n \<and> st_idx t < n)"

definition SumTree_inv :: "nat \<Rightarrow> 'd SumTree \<Rightarrow> bool" where
  "SumTree_inv n t =
     (SumTree_wf n t \<and> sum_inv (st_tree t) \<and> st_tree t ! 0 = sum_list (drop (n - 1) (st_tree t)))"

text \<open>
  \<open>left_spine j\<close>: node \<open>j\<close> is reached from the root through left children only
  (\<open>j + 1\<close> is a power of two).
\<close>

fun left_spine :: "nat \<Rightarrow> bool" where
  "left_spine j = (if j = 0 then True else odd j \<and> left_spine ((j - 1) div 2))"

declare left_spine.simps [simp del]

text \<open>Two outcomes of the tie-breaking: always the left child, always the right child.\<close>

definition pick_left :: "nat \<Rightarrow> bool" where
  "pick_left k = True"

definition pick_right :: "nat \<Rightarrow> bool" where
  "pick_right k = False"

text \<open>Only the data slots below \<open>size\<close> hold a payload.\<close>

definition SumTree_data_ok :: "'d SumTree \<Rightarrow> bool" where
  "SumTree_data_ok t =
     (\<forall>k < length (st_data t). st_data t ! k \<noteq> None \<longrightarrow> k < SumTree_size t)"

subsection \<open>Calls on a tree with \<open>float64\<close> entries\<close>






subsection \<open>\<open>float64\<close> operations on values that are not negative\<close>

text \<open>\<open>f64_not_neg a\<close>: \<open>a\<close> is a finite number \<open>\<ge> 0\<close>, \<open>+inf\<close> or \<open>nan\<close>.\<close>

definition f64_not_neg :: "f64 \<Rightarrow> bool" where
  "f64_not_neg a = (case a of Fin x \<Rightarrow> 0 \<le> x | PInf \<Rightarrow> True | NInf \<Rightarrow> False | NaN \<Rightarrow> True)"

text \<open>
  One outcome of the random generator for \<open>PrioritizedReplayMemory.get\<close>: every uniform
  draw is at the start of its segment and every tie goes left.
\<close>

definition draw_zero :: "nat \<Rightarrow> real" where
  "draw_zero i = 0"

definition coins_left :: "nat \<Rightarrow> nat \<Rightarrow> bool" where
  "coins_left i k = True"

text \<open>A subnormal \<open>float64\<close> priority.\<close>

definition p_tiny :: real where
  "p_tiny = 2 powi (- 1060)"

text \<open>A sequence of \<open>add\<close> calls on one \<open>ReplayMemory\<close>, stopping at the first that raises.\<close>

fun ReplayMemory_add_all ::
  "('s, 'a) transition list list \<Rightarrow> ('s, 'a) ReplayMemory \<Rightarrow> py_error + ('s, 'a) ReplayMemory" where
  "ReplayMemory_add_all [] m = Inr m"
| "ReplayMemory_add_all (dataset # datasets) m =
     (case ReplayMemory_add dataset m of
        Inl e \<Rightarrow> Inl e
      | Inr m' \<Rightarrow> ReplayMemory_add_all datasets m')"

text \<open>The \<open>n\<close> most recent elements of a stream, oldest first.\<close>

definition most_recent :: "nat \<Rightarrow> 'x list \<Rightarrow> 'x list" where
  "most_recent n xs = drop (length xs - n) xs"

text \<open>
  \<open>ring_ok n f xs S\<close>: the array \<open>S\<close> of length \<open>n\<close> is what the ring holds after the
  stream \<open>xs\<close> was written: slot \<open>p mod n\<close> holds field \<open>f\<close> of \<open>xs ! p\<close> for each of the
  last \<open>n\<close> positions \<open>p\<close>, and the slots never written hold \<open>None\<close>. \<open>rm_inv\<close> says so of
  the six arrays, with the cursor and the flag \<open>_full\<close> as \<open>add\<close> leaves them.
\<close>

definition ring_ok :: "nat \<Rightarrow> ('x \<Rightarrow> 'y) \<Rightarrow> 'x list \<Rightarrow> 'y option list \<Rightarrow> bool" where
  "ring_ok n f xs S =
     (length S = n
      \<and> (\<forall>p < length xs. length xs \<le> p + n \<longrightarrow> S ! (p mod n) = Some (f (xs ! p)))
      \<and> (\<forall>j < n. length xs \<le> j \<longrightarrow> S ! j = None))"

definition rm_inv :: "nat \<Rightarrow> ('s, 'a) transition list \<Rightarrow> ('s, 'a) ReplayMemory \<Rightarrow> bool" where
  "rm_inv n xs m =
     (rm_max_size m = n \<and> rm_idx m = length xs mod n \<and> rm_full m = (n \<le> length xs)
      \<and> ring_ok n tr_state xs (rm_states m)
      \<and> ring_ok n tr_action xs (rm_actions m)
      \<and> ring_ok n tr_reward xs (rm_rewards m)
      \<and> ring_ok n tr_next_state xs (rm_next_states m)
      \<and> ring_ok n tr_absorbing xs (rm_absorbing m)
      \<and> ring_ok n tr_last xs (rm_last m))"

text \<open>
  A complete episode ends with a transition whose boundary flag (\<open>absorbing\<close>) is set and
  has no other such transition.
\<close>

definition complete_episode :: "('s, 'a) transition list \<Rightarrow> bool" where
  "complete_episode ep =
     (ep \<noteq> [] \<and> tr_absorbing (last ep) \<and> list_all (\<lambda>x. \<not> tr_absorbing x) (butlast ep))"

text \<open>
  The intermediate values of \<open>_split_dataset\<close>, named: \<open>indices\<close>, \<open>args\<close>, the episodes and
  the returned tail (\<open>split_dataset_eq\<close> below).
\<close>

definition boundary_indices :: "('s, 'a) transition list \<Rightarrow> nat list" where
  "boundary_indices dataset = filter (\<lambda>i. tr_absorbing (dataset ! i)) [0..<length dataset]"

definition split_args :: "('s, 'a) transition list \<Rightarrow> nat list" where
  "split_args dataset = 0 # map (\<lambda>i. i + 1) (boundary_indices dataset)"

definition split_episodes :: "('s, 'a) transition list \<Rightarrow> ('s, 'a) transition list list" where
  "split_episodes dataset =
     map (\<lambda>(start, end). py_slice dataset start end)
       (zip (split_args dataset) (tl (split_args dataset)))"

definition split_rest :: "('s, 'a) transition list \<Rightarrow> ('s, 'a) transition list" where
  "split_rest dataset = py_slice dataset (last (split_args dataset)) (length dataset)"

text \<open>
  An episode is stored when \<open>unroll_steps \<le> length < max_size\<close>. \<open>sq_consistent\<close>: every
  stored episode has such a length, \<open>_lengths\<close> lists the lengths of the stored episodes, the
  six lists of episodes have the same shape and \<open>_size\<close> is the sum of the lengths.
  \<open>sq_inv\<close> adds \<open>_size \<le> max_size\<close>, the bound that eviction restores.
\<close>

definition storable :: "int \<Rightarrow> int \<Rightarrow> 'x list \<Rightarrow> bool" where
  "storable unroll_steps max_size ep =
     (unroll_steps \<le> int (length ep) \<and> int (length ep) < max_size)"

definition sq_consistent :: "('s, 'a) SequentialReplayMemory \<Rightarrow> bool" where
  "sq_consistent m =
     (list_all (storable (sq_unroll_steps m) (sq_max_size m)) (sq_states m)
      \<and> sq_lengths m = map (\<lambda>ep. int (length ep)) (sq_states m)
      \<and> map length (sq_actions m) = map length (sq_states m)
      \<and> map length (sq_rewards m) = map length (sq_states m)
      \<and> map length (sq_next_states m) = map length (sq_states m)
      \<and> map length (sq_absorbing m) = map length (sq_states m)
      \<and> map length (sq_last m) = map length (sq_states m)
      \<and> sq_size m = sum_list (sq_lengths m))"

definition sq_inv :: "('s, 'a) SequentialReplayMemory \<Rightarrow> bool" where
  "sq_inv m = (sq_consistent m \<and> sq_size m \<le> sq_max_size m)"

definition same_params ::
  "('s, 'a) SequentialReplayMemory \<Rightarrow> ('s, 'a) SequentialReplayMemory \<Rightarrow> bool" where
  "same_params m m' =
     (sq_initial_size m' = sq_initial_size m \<and> sq_max_size m' = sq_max_size m
      \<and> sq_unroll_steps m' = sq_unroll_steps m
      \<and> sq_unfinished_episode m' = sq_unfinished_episode m)"

text \<open>Seven transitions with the boundary flag set at positions 2 and 5.\<close>

definition stream7 :: "(nat, nat) transition list" where
  "stream7 = [(0, 0, 0, 1, False, False), (1, 0, 0, 2, False, False), (2, 0, 0, 3, True, False),
              (3, 0, 0, 4, False, False), (4, 0, 0, 5, False, False), (5, 0, 0, 6, True, False),
              (6, 0, 0, 7, False, False)]"

section \<open>Properties\<close>

subsection \<open>The array layout of the tree\<close>

lemma anc_refl: "anc i i"
  by (simp add: anc.simps)

lemma anc_le: "anc k i \<Longrightarrow> k \<le> i"
proof (induction k i rule: anc.induct)
  case (1 k i)
  show ?case
  proof (cases "k = i \<or> i = 0")
    case True
    with "1.prems" show ?thesis by (auto simp: anc.simps [of k i] split: if_splits)
  next
    case False
    with "1.prems" have "anc k ((i - 1) div 2)" by (simp add: anc.simps [of k i])
    with "1.IH" False have "k \<le> (i - 1) div 2" by simp
    then show ?thesis by simp
  qed
qed

lemma anc_root: "anc 0 i"
proof (induction i rule: less_induct)
  case (less i)
  show ?case
  proof (cases "i = 0")
    case True then show ?thesis by (simp add: anc.simps)
  next
    case False
    then have "(i - 1) div 2 < i" by simp
    then have "anc 0 ((i - 1) div 2)" by (rule less.IH)
    with False show ?thesis by (simp add: anc.simps [of 0 i])
  qed
qed

lemma anc_step: "k \<noteq> i \<Longrightarrow> 0 < i \<Longrightarrow> anc k i = anc k ((i - 1) div 2)"
  by (simp add: anc.simps [of k i])

lemma anc_zero: "anc k 0 = (k = 0)"
  by (simp add: anc.simps [of k 0])

lemma anc_proper_internal: "anc k i \<Longrightarrow> k \<noteq> i \<Longrightarrow> 2 * k + 1 \<le> i"
proof (induction i rule: less_induct)
  case (less i)
  from less.prems have i: "0 < i" by (cases "i = 0") (simp_all add: anc_zero)
  with less.prems have a: "anc k ((i - 1) div 2)" by (simp add: anc_step)
  show ?case
  proof (cases "k = (i - 1) div 2")
    case True
    with i show ?thesis by simp
  next
    case False
    from i have "(i - 1) div 2 < i" by simp
    from less.IH [OF this a False] show ?thesis by simp
  qed
qed

lemma anc_child_imp: "anc (2 * k + 1) i \<or> anc (2 * k + 2) i \<Longrightarrow> anc k i \<and> k \<noteq> i"
proof (induction i rule: less_induct)
  case (less i)
  from less.prems have ki: "k < i" by (auto dest: anc_le)
  then have i: "0 < i" by simp
  show ?case
  proof (cases "2 * k + 1 = i \<or> 2 * k + 2 = i")
    case True
    then have "(i - 1) div 2 = k" by auto
    with ki i show ?thesis by (simp add: anc_step anc_refl)
  next
    case False
    with less.prems i have "anc (2 * k + 1) ((i - 1) div 2) \<or> anc (2 * k + 2) ((i - 1) div 2)"
      by (auto simp: anc_step)
    moreover from i have "(i - 1) div 2 < i" by simp
    ultimately have "anc k ((i - 1) div 2) \<and> k \<noteq> (i - 1) div 2" by (rule less.IH [rotated])
    with ki i show ?thesis by (simp add: anc_step)
  qed
qed

lemma anc_imp_child: "anc k i \<Longrightarrow> k \<noteq> i \<Longrightarrow> anc (2 * k + 1) i \<or> anc (2 * k + 2) i"
proof (induction i rule: less_induct)
  case (less i)
  from less.prems have i: "0 < i" by (cases "i = 0") (simp_all add: anc_zero)
  with less.prems have a: "anc k ((i - 1) div 2)" by (simp add: anc_step)
  show ?case
  proof (cases "k = (i - 1) div 2")
    case True
    with i have "2 * k + 1 = i \<or> 2 * k + 2 = i" by auto
    then show ?thesis by (auto simp: anc_refl)
  next
    case False
    from i have lt: "(i - 1) div 2 < i" by simp
    from less.IH [OF lt a False]
    have c: "anc (2 * k + 1) ((i - 1) div 2) \<or> anc (2 * k + 2) ((i - 1) div 2)" .
    then show ?thesis
    proof
      assume h: "anc (2 * k + 1) ((i - 1) div 2)"
      then have "2 * k + 1 \<le> (i - 1) div 2" by (rule anc_le)
      with lt have "2 * k + 1 \<noteq> i" by simp
      with h i show ?thesis by (simp add: anc_step)
    next
      assume h: "anc (2 * k + 2) ((i - 1) div 2)"
      then have "2 * k + 2 \<le> (i - 1) div 2" by (rule anc_le)
      with lt have "2 * k + 2 \<noteq> i" by simp
      with h i show ?thesis by (simp add: anc_step)
    qed
  qed
qed

lemma anc_not_both: "\<not> (anc (2 * k + 1) i \<and> anc (2 * k + 2) i)"
proof (induction i rule: less_induct)
  case (less i)
  show ?case
  proof
    assume both: "anc (2 * k + 1) i \<and> anc (2 * k + 2) i"
    then have ki: "2 * k + 2 \<le> i" by (auto dest: anc_le)
    then have i: "0 < i" by simp
    then have lt: "(i - 1) div 2 < i" by simp
    have l: "2 * k + 1 \<noteq> i"
    proof
      assume "2 * k + 1 = i"
      with ki show False by simp
    qed
    show False
    proof (cases "2 * k + 2 = i")
      case True
      from both l i have "anc (2 * k + 1) ((i - 1) div 2)" by (simp add: anc_step)
      then have "2 * k + 1 \<le> (i - 1) div 2" by (rule anc_le)
      with True show False by auto
    next
      case False
      with both l i have "anc (2 * k + 1) ((i - 1) div 2) \<and> anc (2 * k + 2) ((i - 1) div 2)"
        by (simp add: anc_step)
      with less.IH [OF lt] show False by simp
    qed
  qed
qed

subsection \<open>\<open>SumTree._propagate\<close>\<close>

lemma py_index_nat: "i < len \<Longrightarrow> py_index len (int i) = Inr i"
  by (simp add: py_index_def)

lemma parent_int: "0 < i \<Longrightarrow> (int i - 1) div 2 = int ((i - 1) div 2)"
  by (cases i) (simp_all add: zdiv_int)

lemma propagate_spec:
  "0 < i \<Longrightarrow> i < length tree \<Longrightarrow>
   \<exists>tree'. SumTree_propagate delta (int i) tree = Some (Inr tree')
     \<and> length tree' = length tree
     \<and> (\<forall>k < length tree. tree' ! k = tree ! k + (if anc k i \<and> k \<noteq> i then delta else 0))"
proof (induction i arbitrary: tree rule: less_induct)
  case (less i)
  define q where "q = (i - 1) div 2"
  from less.prems have q: "q < i" "q < length tree" by (simp_all add: q_def)
  from less.prems have pq: "(int i - 1) div 2 = int q" by (simp add: q_def parent_int)
  define tree1 where "tree1 = tree[q := tree ! q + delta]"
  have len1: "length tree1 = length tree" by (simp add: tree1_def)
  show ?case
  proof (cases "q = 0")
    case True
    have "SumTree_propagate delta (int i) tree = Some (Inr tree1)"
      using q True pq
      by (subst SumTree_propagate.simps) (simp add: py_index_def tree1_def)
    moreover have "\<forall>k < length tree. tree1 ! k = tree ! k + (if anc k i \<and> k \<noteq> i then delta else 0)"
    proof (intro allI impI)
      fix k assume k: "k < length tree"
      show "tree1 ! k = tree ! k + (if anc k i \<and> k \<noteq> i then delta else 0)"
      proof (cases "k = i")
        case True
        with q show ?thesis by (simp add: tree1_def)
      next
        case False
        with less.prems have "anc k i = anc k q" by (simp add: anc_step q_def)
        with \<open>q = 0\<close> have "anc k i = (k = 0)" by (simp add: anc_zero)
        with k \<open>q = 0\<close> False show ?thesis by (auto simp: tree1_def)
      qed
    qed
    ultimately show ?thesis using len1 by blast
  next
    case False
    then have q0: "0 < q" by simp
    from less.IH [OF q(1) q0, of tree1] q(2) len1
    obtain tree' where t': "SumTree_propagate delta (int q) tree1 = Some (Inr tree')"
      "length tree' = length tree"
      "\<forall>k < length tree. tree' ! k = tree1 ! k + (if anc k q \<and> k \<noteq> q then delta else 0)"
      by auto
    have "SumTree_propagate delta (int i) tree = Some (Inr tree')"
      using q False pq t'(1)
      by (subst SumTree_propagate.simps) (simp add: py_index_def tree1_def)
    moreover have "\<forall>k < length tree. tree' ! k = tree ! k + (if anc k i \<and> k \<noteq> i then delta else 0)"
    proof (intro allI impI)
      fix k assume k: "k < length tree"
      show "tree' ! k = tree ! k + (if anc k i \<and> k \<noteq> i then delta else 0)"
      proof (cases "k = i")
        case True
        have "\<not> anc i q" using q(1) anc_le [of i q] by auto
        with t'(3) k True q show ?thesis by (simp add: tree1_def)
      next
        case ki: False
        with less.prems have a: "anc k i = anc k q" by (simp add: anc_step q_def)
        show ?thesis
        proof (cases "k = q")
          case True
          with t'(3) k a ki show ?thesis by (simp add: tree1_def anc_refl)
        next
          case False
          with t'(3) k a ki show ?thesis by (simp add: tree1_def)
        qed
      qed
    qed
    ultimately show ?thesis using t'(2) by blast
  qed
qed

text \<open>From index \<open>0\<close> (and from \<open>-1\<close>, its parent index) the recursion never ends.\<close>

lemma propagate_diverges:
  "tree \<noteq> [] \<Longrightarrow> idx = 0 \<or> idx = - 1 \<Longrightarrow> SumTree_propagate delta idx tree = None"
proof -
  have "\<not> (tree \<noteq> [] \<and> (idx = 0 \<or> idx = - 1))"
    if "SumTree_propagate delta idx tree = Some y" for y
    using that
  proof (induction rule: SumTree_propagate.raw_induct [rotated, consumes 1])
    case (1 f delta idx tree y)
    show ?case
    proof
      assume a: "tree \<noteq> [] \<and> (idx = 0 \<or> idx = - 1)"
      then have p: "(idx - 1) div 2 = - 1" by auto
      from a have ix: "py_index (length tree) (- 1) = Inr (length tree - 1)"
        by (cases tree) (simp_all add: py_index_def)
      define tree' where "tree' = tree[length tree - 1 := tree ! (length tree - 1) + delta]"
      from 1(2) p ix have "f delta (- 1) tree' = Some y" by (simp add: tree'_def)
      from 1(1) [OF this] a show False by (simp add: tree'_def)
    qed
  qed
  moreover assume "tree \<noteq> []" "idx = 0 \<or> idx = - 1"
  ultimately show ?thesis by (cases "SumTree_propagate delta idx tree") auto
qed

lemma leaf_update_spec:
  assumes i: "0 < i" "i < length tree"
  shows "\<exists>tree'. SumTree_propagate (p - tree ! i) (int i) (tree[i := p]) = Some (Inr tree')
     \<and> length tree' = length tree
     \<and> (\<forall>k < length tree. tree' ! k = tree ! k + (if anc k i then p - tree ! i else 0))"
proof -
  from propagate_spec [of i "tree[i := p]" "p - tree ! i"] i
  obtain tree' where t: "SumTree_propagate (p - tree ! i) (int i) (tree[i := p]) = Some (Inr tree')"
    "length tree' = length tree"
    "\<forall>k < length tree. tree' ! k = tree[i := p] ! k + (if anc k i \<and> k \<noteq> i then p - tree ! i else 0)"
    by auto
  have "\<forall>k < length tree. tree' ! k = tree ! k + (if anc k i then p - tree ! i else 0)"
  proof (intro allI impI)
    fix k assume k: "k < length tree"
    with t(3) show "tree' ! k = tree ! k + (if anc k i then p - tree ! i else 0)"
      by (cases "k = i") (simp_all add: anc_refl)
  qed
  with t(1,2) show ?thesis by blast
qed

lemma anc_children:
  "k \<noteq> i \<Longrightarrow> anc k i = (anc (2 * k + 1) i \<or> anc (2 * k + 2) i)"
  using anc_child_imp [of k i] anc_imp_child [of k i] by blast

lemma sum_inv_bump:
  assumes inv: "sum_inv tree"
    and len: "length tree' = length tree"
    and leaf: "length tree \<le> 2 * i + 2"
    and upd: "\<forall>k < length tree. tree' ! k = tree ! k + (if anc k i then d else 0)"
  shows "sum_inv tree'"
  unfolding sum_inv_def
proof (intro allI impI)
  fix k assume k: "2 * k + 2 < length tree'"
  with len leaf have ki: "k \<noteq> i" by auto
  from k len have lt: "k < length tree" "2 * k + 1 < length tree" "2 * k + 2 < length tree" by auto
  from inv lt have old: "tree ! k = tree ! (2 * k + 1) + tree ! (2 * k + 2)"
    by (simp add: sum_inv_def)
  from anc_children [OF ki] anc_not_both [of k i]
  consider "anc k i" "anc (2 * k + 1) i" "\<not> anc (2 * k + 2) i"
    | "anc k i" "\<not> anc (2 * k + 1) i" "anc (2 * k + 2) i"
    | "\<not> anc k i" "\<not> anc (2 * k + 1) i" "\<not> anc (2 * k + 2) i"
    by blast
  then show "tree' ! k = tree' ! (2 * k + 1) + tree' ! (2 * k + 2)"
    using upd lt old by cases simp_all
qed

lemma sum_list_drop_nth:
  fixes xs :: "real list"
  shows "sum_list (drop m xs) = (\<Sum>k = m..<length xs. xs ! k)"
proof (cases "m \<le> length xs")
  case True
  have "sum_list (drop m xs) = (\<Sum>j = 0..<length xs - m. drop m xs ! j)"
    by (simp add: sum_list_sum_nth)
  also have "\<dots> = (\<Sum>j = 0..<length xs - m. xs ! (j + m))"
    by (rule sum.cong) (simp_all add: add.commute)
  also have "\<dots> = (\<Sum>k = m..<length xs. xs ! k)"
    using True sum.shift_bounds_nat_ivl [of "\<lambda>k. xs ! k" 0 m "length xs - m"] by simp
  finally show ?thesis .
next
  case False
  then show ?thesis by simp
qed

lemma leaves_sum_bump:
  fixes tree :: "real list"
  assumes len: "length tree' = length tree"
    and i: "m \<le> i" "i < length tree" "i \<le> 2 * m"
    and upd: "\<forall>k < length tree. tree' ! k = tree ! k + (if anc k i then d else 0)"
  shows "sum_list (drop m tree') = sum_list (drop m tree) + d"
proof -
  have "(\<Sum>k = m..<length tree. tree' ! k) = (\<Sum>k = m..<length tree. tree ! k + (if k = i then d else 0))"
  proof (rule sum.cong [OF refl])
    fix k assume "k \<in> {m..<length tree}"
    then have k: "m \<le> k" "k < length tree" by auto
    have "anc k i = (k = i)"
    proof (cases "k = i")
      case True then show ?thesis by (simp add: anc_refl)
    next
      case False
      have "\<not> anc k i"
      proof
        assume "anc k i"
        from anc_proper_internal [OF this False] k i show False by simp
      qed
      with False show ?thesis by simp
    qed
    with upd k show "tree' ! k = tree ! k + (if k = i then d else 0)" by simp
  qed
  also have "\<dots> = (\<Sum>k = m..<length tree. tree ! k) + (\<Sum>k = m..<length tree. if k = i then d else 0)"
    by (simp add: sum.distrib)
  also have "(\<Sum>k = m..<length tree. if k = i then d else 0) = d"
    using i by (simp add: sum.delta)
  finally show ?thesis using len by (simp add: sum_list_drop_nth)
qed

subsection \<open>\<open>SumTree.update\<close> and \<open>SumTree.add\<close> keep the invariant\<close>

lemma update_one_inv:
  assumes n: "2 \<le> n" and inv: "SumTree_inv n t"
    and i: "n - 1 \<le> i" "i \<le> 2 * n - 2"
  shows "\<exists>tree'. SumTree_update_loop ((int i, p) # rest) t
            = SumTree_update_loop rest (t\<lparr>st_tree := tree'\<rparr>)
          \<and> SumTree_inv n (t\<lparr>st_tree := tree'\<rparr>)
          \<and> (\<forall>k < length (st_tree t).
                tree' ! k = st_tree t ! k + (if anc k i then p - st_tree t ! i else 0))"
proof -
  let ?tr = "st_tree t"
  from inv have len: "length ?tr = 2 * n - 1" and si: "sum_inv ?tr"
    and root: "?tr ! 0 = sum_list (drop (n - 1) ?tr)"
    and wf: "SumTree_wf n t"
    by (simp_all add: SumTree_inv_def SumTree_wf_def)
  from n i len have i': "0 < i" "i < length ?tr" by auto
  from leaf_update_spec [OF i', of p]
  obtain tree' where t: "SumTree_propagate (p - ?tr ! i) (int i) (?tr[i := p]) = Some (Inr tree')"
    "length tree' = length ?tr"
    "\<forall>k < length ?tr. tree' ! k = ?tr ! k + (if anc k i then p - ?tr ! i else 0)"
    by blast
  have run: "SumTree_update_loop ((int i, p) # rest) t
            = SumTree_update_loop rest (t\<lparr>st_tree := tree'\<rparr>)"
    using i' t(1) by (simp add: py_index_def)
  from n i len have leaf: "length ?tr \<le> 2 * i + 2" by auto
  have si': "sum_inv tree'" by (rule sum_inv_bump [OF si t(2) leaf t(3)])
  from n i len have "i \<le> 2 * (n - 1)" by auto
  from leaves_sum_bump [OF t(2) i(1) i'(2) this t(3)]
  have ls: "sum_list (drop (n - 1) tree') = sum_list (drop (n - 1) ?tr) + (p - ?tr ! i)" .
  from i' have "0 < length ?tr" by (cases "st_tree t") simp_all
  with t(3) have "tree' ! 0 = ?tr ! 0 + (if anc 0 i then p - ?tr ! i else 0)" by blast
  then have "tree' ! 0 = ?tr ! 0 + (p - ?tr ! i)" by (simp add: anc_root)
  with ls root have root': "tree' ! 0 = sum_list (drop (n - 1) tree')" by simp
  from wf t(2) si' root' have "SumTree_inv n (t\<lparr>st_tree := tree'\<rparr>)"
    by (simp add: SumTree_inv_def SumTree_wf_def)
  with run t(3) show ?thesis by blast
qed

lemma update_loop_inv:
  assumes n: "2 \<le> n"
  shows "SumTree_inv n t \<Longrightarrow> list_all (\<lambda>i. int n - 1 \<le> i \<and> i \<le> 2 * int n - 2) (map fst ips) \<Longrightarrow>
    \<exists>t'. SumTree_update_loop ips t = Some (Inr t') \<and> SumTree_inv n t'
        \<and> st_data t' = st_data t \<and> st_idx t' = st_idx t \<and> st_full t' = st_full t"
proof (induction ips arbitrary: t)
  case Nil
  then show ?case by simp
next
  case (Cons ip ips)
  obtain i p where ip: "ip = (i, p)" by (cases ip)
  with Cons.prems(2) have r: "int n - 1 \<le> i" "i \<le> 2 * int n - 2"
    and rest: "list_all (\<lambda>i. int n - 1 \<le> i \<and> i \<le> 2 * int n - 2) (map fst ips)"
    by simp_all
  from r n have i0: "0 \<le> i" by simp
  define j where "j = nat i"
  with i0 have ij: "i = int j" by simp
  from r n ij have jr: "n - 1 \<le> j" "j \<le> 2 * n - 2" by auto
  from update_one_inv [OF n Cons.prems(1) jr, of p ips]
  obtain tree' where t: "SumTree_update_loop ((int j, p) # ips) t
            = SumTree_update_loop ips (t\<lparr>st_tree := tree'\<rparr>)"
      "SumTree_inv n (t\<lparr>st_tree := tree'\<rparr>)" by blast
  from Cons.IH [OF t(2) rest] t(1) ip ij show ?case by auto
qed

lemma update_inv:
  assumes "2 \<le> n" "SumTree_inv n t" "list_all (\<lambda>i. int n - 1 \<le> i \<and> i \<le> 2 * int n - 2) idx"
  shows "\<exists>t'. SumTree_update idx priorities t = Some (Inr t') \<and> SumTree_inv n t'
        \<and> st_data t' = st_data t \<and> st_idx t' = st_idx t \<and> st_full t' = st_full t"
proof -
  have "set (map fst (zip idx priorities)) \<subseteq> set idx"
    by (auto dest: set_zip_leftD)
  with assms(3) have "list_all (\<lambda>i. int n - 1 \<le> i \<and> i \<le> 2 * int n - 2) (map fst (zip idx priorities))"
    unfolding list_all_iff by blast
  from update_loop_inv [OF assms(1,2) this] show ?thesis by (simp add: SumTree_update_def)
qed

lemma add_loop_inv:
  assumes n: "2 \<le> n"
  shows "SumTree_inv n t \<Longrightarrow> \<exists>t'. SumTree_add_loop dps t = Some (Inr t') \<and> SumTree_inv n t'"
proof (induction dps arbitrary: t)
  case Nil
  then show ?case by simp
next
  case (Cons dp dps)
  obtain d p where dp: "dp = (d, p)" by (cases dp)
  from Cons.prems have wf: "SumTree_wf n t" by (simp add: SumTree_inv_def)
  then have ix: "st_idx t < n" "st_max_size t = n" "length (st_data t) = n"
    by (simp_all add: SumTree_wf_def)
  define t1 where "t1 = t\<lparr>st_data := (st_data t)[st_idx t := Some d]\<rparr>"
  from Cons.prems have inv1: "SumTree_inv n t1"
    by (simp add: t1_def SumTree_inv_def SumTree_wf_def)
  have ok: "list_all (\<lambda>i. int n - 1 \<le> i \<and> i \<le> 2 * int n - 2) [int (st_idx t) + int n - 1]"
    using ix n by simp
  from update_inv [OF n inv1 ok, of "[p]"]
  obtain t2 where t2: "SumTree_update [int (st_idx t) + int n - 1] [p] t1 = Some (Inr t2)"
    "SumTree_inv n t2" "st_data t2 = st_data t1" "st_idx t2 = st_idx t1" "st_full t2 = st_full t1"
    by blast
  define t3 where "t3 = (if st_idx t2 + 1 = st_max_size t2
                  then t2\<lparr>st_idx := 0, st_full := True\<rparr>
                  else t2\<lparr>st_idx := st_idx t2 + 1\<rparr>)"
  from t2(2) have ms: "st_max_size t2 = n" by (simp add: SumTree_inv_def SumTree_wf_def)
  from t2(2,4) ix n ms have inv3: "SumTree_inv n t3"
    by (auto simp: t3_def t1_def SumTree_inv_def SumTree_wf_def)
  have "SumTree_add_loop (dp # dps) t = SumTree_add_loop dps t3"
    using ix t2(1) by (simp add: dp py_index_def t1_def t3_def)
  with Cons.IH [OF inv3] show ?case by simp
qed

lemma init_inv:
  assumes "SumTree_init n = Inr t"
  shows "SumTree_inv n t \<and> 0 < n"
proof -
  from assms have n: "0 < n" and t: "t = \<lparr>st_max_size = n,
                st_tree = replicate (2 * n - 1) 0,
                st_data = replicate n None,
                st_idx = 0,
                st_full = False\<rparr>"
    by (auto simp: SumTree_init_def split: if_splits)
  have "sum_inv (replicate (2 * n - 1) (0::real))" by (simp add: sum_inv_def)
  moreover have "sum_list (drop (n - 1) (replicate (2 * n - 1) (0::real))) = 0"
    by (simp add: sum_list_replicate)
  ultimately show ?thesis using n t by (simp add: SumTree_inv_def SumTree_wf_def)
qed

lemma run_inv:
  assumes n: "2 \<le> n"
  shows "SumTree_inv n t \<Longrightarrow> list_all (SumTree_call_ok n) calls \<Longrightarrow>
     \<exists>t'. SumTree_run calls t = Some (Inr t') \<and> SumTree_inv n t'"
proof (induction calls arbitrary: t)
  case Nil
  then show ?case by simp
next
  case (Cons c cs)
  show ?case
  proof (cases c)
    case (Add dataset priority)
    from add_loop_inv [OF n Cons.prems(1), of "zip dataset priority"]
    obtain t' where "SumTree_add dataset priority t = Some (Inr t')" "SumTree_inv n t'"
      by (auto simp: SumTree_add_def)
    with Cons.IH [of t'] Cons.prems(2) Add show ?thesis by simp
  next
    case (Update idx priorities)
    with Cons.prems(2) have "list_all (\<lambda>i. int n - 1 \<le> i \<and> i \<le> 2 * int n - 2) idx" by simp
    from update_inv [OF n Cons.prems(1) this, of priorities]
    obtain t' where "SumTree_update idx priorities t = Some (Inr t')" "SumTree_inv n t'"
      by blast
    with Cons.IH [of t'] Cons.prems(2) Update show ?thesis by simp
  qed
qed

subsection \<open>\<open>SumTree._retrieve\<close> and \<open>SumTree.get\<close>\<close>

lemma left_spine_anc: "left_spine j \<Longrightarrow> anc i j \<Longrightarrow> i \<noteq> j \<Longrightarrow> anc (2 * i + 1) j"
proof (induction j rule: less_induct)
  case (less j)
  define q where "q = (j - 1) div 2"
  from less.prems have j: "0 < j" by (cases "j = 0") (simp_all add: anc_zero)
  with less.prems(1) have odd: "odd j" and lq: "left_spine q"
    by (simp_all add: left_spine.simps [of j] q_def)
  from odd have jq: "j = 2 * q + 1" by (auto simp: q_def elim: oddE)
  from less.prems j have a: "anc i q" by (simp add: anc_step q_def)
  show ?case
  proof (cases "i = q")
    case True
    with jq show ?thesis by (simp add: anc_refl)
  next
    case False
    from jq have "q < j" by simp
    from less.IH [OF this lq a False] have c: "anc (2 * i + 1) q" .
    then have "2 * i + 1 \<le> q" by (rule anc_le)
    with jq have "2 * i + 1 \<noteq> j" by simp
    with c j show ?thesis by (simp add: anc_step q_def)
  qed
qed

lemma retrieve_step:
  assumes "2 * i + 2 < length tree"
  shows "SumTree_retrieve rnd k s (int i) tree =
     (if tree ! (2 * i + 1) = tree ! (2 * i + 2)
      then SumTree_retrieve rnd (Suc k) s (if rnd k then int (2 * i + 1) else int (2 * i + 2)) tree
      else if s \<le> tree ! (2 * i + 1) then SumTree_retrieve rnd k s (int (2 * i + 1)) tree
      else SumTree_retrieve rnd k (s - tree ! (2 * i + 1)) (int (2 * i + 2)) tree)"
proof -
  have "nat (2 * int i + 1) = 2 * i + 1" "nat (2 * int i + 2) = 2 * i + 2" by simp_all
  with assms show ?thesis
    by (subst SumTree_retrieve.simps) (simp add: py_index_def Let_def add.commute)
qed

lemma retrieve_stop:
  assumes "length tree \<le> 2 * i + 1"
  shows "SumTree_retrieve rnd k s (int i) tree = Some (Inr (int i))"
  using assms by (subst SumTree_retrieve.simps) simp

lemma retrieve_leaf:
  assumes len: "length tree = 2 * n - 1" and n: "0 < n"
  shows "i < 2 * n - 1 \<Longrightarrow>
    \<exists>j. SumTree_retrieve rnd k s (int i) tree = Some (Inr (int j)) \<and> n - 1 \<le> j \<and> j < 2 * n - 1"
proof (induction "length tree - i" arbitrary: i k s rule: less_induct)
  case less
  show ?case
  proof (cases "length tree \<le> 2 * i + 1")
    case True
    with retrieve_stop [OF True] less.prems len show ?thesis by auto
  next
    case False
    with len n have c: "2 * i + 2 < length tree" by presburger
    have st: "\<exists>j. SumTree_retrieve rnd k' s' (int c') tree = Some (Inr (int j))
          \<and> n - 1 \<le> j \<and> j < 2 * n - 1"
      if "c' = 2 * i + 1 \<or> c' = 2 * i + 2" for c' k' s'
    proof (rule less.hyps)
      from that c show "length tree - c' < length tree - i" by auto
      from that c len show "c' < 2 * n - 1" by auto
    qed
    show ?thesis
      unfolding retrieve_step [OF c]
      using st [of "2 * i + 1"] st [of "2 * i + 2"] by (simp only: split: if_split) blast
  qed
qed

lemma tree_values:
  fixes v :: real
  assumes len: "length tree = 2 * n - 1" and n: "0 < n"
    and inv: "sum_inv tree"
    and j: "n - 1 \<le> j" "j < 2 * n - 1"
    and leaves: "\<forall>k. n - 1 \<le> k \<and> k < 2 * n - 1 \<longrightarrow> tree ! k = (if k = j then v else 0)"
  shows "k < 2 * n - 1 \<Longrightarrow> tree ! k = (if anc k j then v else 0)"
proof (induction "length tree - k" arbitrary: k rule: less_induct)
  case less
  show ?case
  proof (cases "n - 1 \<le> k")
    case True
    have "anc k j = (k = j)"
    proof (cases "k = j")
      case True then show ?thesis by (simp add: anc_refl)
    next
      case False
      have "\<not> anc k j"
      proof
        assume "anc k j"
        from anc_proper_internal [OF this False] j True n show False by simp
      qed
      with False show ?thesis by simp
    qed
    with leaves True less.prems show ?thesis by simp
  next
    case False
    with n have c: "2 * k + 2 < length tree" unfolding len by presburger
    from False j have kj: "k \<noteq> j" by auto
    have l: "tree ! (2 * k + 1) = (if anc (2 * k + 1) j then v else 0)"
      by (rule less.hyps) (use c len in auto)
    have r: "tree ! (2 * k + 2) = (if anc (2 * k + 2) j then v else 0)"
      by (rule less.hyps) (use c len in auto)
    from inv c have "tree ! k = tree ! (2 * k + 1) + tree ! (2 * k + 2)"
      by (simp add: sum_inv_def)
    with l r anc_children [OF kj] anc_not_both [of k j] show ?thesis by auto
  qed
qed

lemma retrieve_single:
  fixes v :: real
  assumes len: "length tree = 2 * n - 1" and n: "0 < n"
    and j: "n - 1 \<le> j" "j < 2 * n - 1"
    and vals: "\<forall>k < 2 * n - 1. tree ! k = (if anc k j then v else 0)"
    and v: "0 < v" and s: "s \<le> v" "0 < s \<or> left_spine j"
  shows "anc i j \<Longrightarrow> SumTree_retrieve rnd k s (int i) tree = Some (Inr (int j))"
proof (induction "length tree - i" arbitrary: i rule: less_induct)
  case less
  show ?case
  proof (cases "i = j")
    case True
    from j n len have "length tree \<le> 2 * j + 1" by auto
    from retrieve_stop [OF this] True show ?thesis by simp
  next
    case False
    from anc_proper_internal [OF less.prems False] j len n
    have c: "2 * i + 2 < length tree" by presburger
    from anc_imp_child [OF less.prems False] anc_not_both [of i j]
    consider (L) "anc (2 * i + 1) j" "\<not> anc (2 * i + 2) j"
      | (R) "\<not> anc (2 * i + 1) j" "anc (2 * i + 2) j" by blast
    then show ?thesis
    proof cases
      case L
      with vals c len have lv: "tree ! (2 * i + 1) = v" "tree ! (2 * i + 2) = 0" by auto
      have "SumTree_retrieve rnd k s (int (2 * i + 1)) tree = Some (Inr (int j))"
        by (rule less.hyps) (use c L in auto)
      with lv v s show ?thesis unfolding retrieve_step [OF c] by simp
    next
      case R
      with vals c len have lv: "tree ! (2 * i + 1) = 0" "tree ! (2 * i + 2) = v" by auto
      from R(1) left_spine_anc [OF _ less.prems False] have "\<not> left_spine j" by blast
      with s have sp: "0 < s" by simp
      have "SumTree_retrieve rnd k s (int (2 * i + 2)) tree = Some (Inr (int j))"
        by (rule less.hyps) (use c R in auto)
      with lv v sp show ?thesis unfolding retrieve_step [OF c] by simp
    qed
  qed
qed

lemma get_of_retrieve:
  assumes wf: "SumTree_wf n t" and n: "0 < n"
    and r: "SumTree_retrieve rnd 0 s 0 (st_tree t) = Some (Inr (int j))"
    and j: "n - 1 \<le> j" "j < 2 * n - 1"
  shows "SumTree_get rnd s t = Some (Inr (int j, st_tree t ! j, st_data t ! (j - (n - 1))))"
proof -
  from wf have f: "st_max_size t = n" "length (st_tree t) = 2 * n - 1" "length (st_data t) = n"
    by (simp_all add: SumTree_wf_def)
  define dj where "dj = j - (n - 1)"
  from j n have "int j - int n + 1 = int dj" "dj < n" by (auto simp: dj_def)
  with f have e: "py_index (length (st_data t)) (int j - int (st_max_size t) + 1) = Inr dj"
    by (simp add: py_index_def)
  from j f have e2: "py_index (length (st_tree t)) (int j) = Inr j"
    by (simp add: py_index_def)
  show ?thesis
    unfolding SumTree_get_def r by (simp add: e e2) (simp add: dj_def)
qed

lemma single_leaf_aux:
  assumes "SumTree_wf n t" and "0 < n" and "sum_inv (st_tree t)"
    and "n - 1 \<le> j" and "j < 2 * n - 1"
    and "\<forall>k. n - 1 \<le> k \<and> k < 2 * n - 1 \<longrightarrow> st_tree t ! k = (if k = j then 10 else 0)"
    and "0 \<le> s" and "s < 10" and "0 < s \<or> left_spine j"
  shows "SumTree_get rnd s t = Some (Inr (int j, 10, st_data t ! (j - (n - 1))))"
proof -
  from assms(1) have len: "length (st_tree t) = 2 * n - 1" by (simp add: SumTree_wf_def)
  have vals: "\<forall>k < 2 * n - 1. st_tree t ! k = (if anc k j then 10 else 0)"
    using tree_values [OF len assms(2,3,4,5,6)] by blast
  have "SumTree_retrieve rnd 0 s (int 0) (st_tree t) = Some (Inr (int j))"
    by (rule retrieve_single [OF len assms(2,4,5) vals _ _ assms(9)])
       (use assms(8) in \<open>simp_all add: anc_root\<close>)
  then have "SumTree_retrieve rnd 0 s 0 (st_tree t) = Some (Inr (int j))" by simp
  from get_of_retrieve [OF assms(1,2) this assms(4,5)] assms(4,5,6)
  show ?thesis by simp
qed

lemma get_returns_leaf:
  assumes "SumTree_wf n t" and "0 < n"
  shows "\<exists>j. n - 1 \<le> j \<and> j < 2 * n - 1
     \<and> SumTree_get rnd s t = Some (Inr (int j, st_tree t ! j, st_data t ! (j - (n - 1))))"
proof -
  from assms(1) have len: "length (st_tree t) = 2 * n - 1" by (simp add: SumTree_wf_def)
  from retrieve_leaf [OF len assms(2), of 0 rnd 0 s] assms(2)
  obtain j where j: "SumTree_retrieve rnd 0 s 0 (st_tree t) = Some (Inr (int j))"
    "n - 1 \<le> j" "j < 2 * n - 1" by auto
  from get_of_retrieve [OF assms(1,2) j] j(2,3) show ?thesis by blast
qed

text \<open>
  Claim C8, as amended. \<open>get\<close> has no range check: for every well-formed tree, every
  value \<open>s\<close> (inside or outside \<open>[0, total_p)\<close>) and every outcome of the tie-breaking,
  \<open>get(s)\<close> raises nothing and returns a leaf index with that leaf's priority and
  payload.
\<close>

theorem get_never_checks_range:
  assumes "SumTree_wf n t" and "0 < n"
  shows "\<exists>j. n - 1 \<le> j \<and> j < 2 * n - 1
     \<and> SumTree_get rnd s t = Some (Inr (int j, st_tree t ! j, st_data t ! (j - (n - 1))))"
  using assms by (rule get_returns_leaf)

lemma update_root_diverges:
  assumes "SumTree_wf n t" "0 < n"
  shows "SumTree_update [0] [p] t = None"
proof -
  from assms have ne: "st_tree t \<noteq> []" by (auto simp: SumTree_wf_def)
  then have ix: "py_index (length (st_tree t)) 0 = Inr 0" by (simp add: py_index_def)
  from ne have "(st_tree t)[0 := p] \<noteq> []" by simp
  from propagate_diverges [OF this, of 0 "p - st_tree t ! 0"]
  show ?thesis by (simp add: SumTree_update_def ix)
qed

lemma update_terminates:
  assumes wf: "SumTree_wf n t" and i: "1 \<le> i" "i \<le> 2 * int n - 2"
  shows "\<exists>t'. SumTree_update [i] [p] t = Some (Inr t')"
proof -
  from wf have len: "length (st_tree t) = 2 * n - 1" by (simp add: SumTree_wf_def)
  define j where "j = nat i"
  with i have ij: "i = int j" and j: "0 < j" "j < length (st_tree t)" using len by auto
  from j have j': "0 < j" "j < length ((st_tree t)[j := p])" by simp_all
  from propagate_spec [OF j', of "p - st_tree t ! j"]
  obtain tree' where "SumTree_propagate (p - st_tree t ! j) (int j) ((st_tree t)[j := p]) = Some (Inr tree')"
    by blast
  with j show ?thesis by (simp add: SumTree_update_def ij py_index_def)
qed

text \<open>
  Claim C10 (termination of the tree recursion). In a well-formed tree with
  \<open>max_size \<ge> 2\<close>, \<open>update\<close> on any leaf index returns (the recursion of
  \<open>_propagate\<close> reaches the root), and \<open>get\<close> returns for every value and every
  outcome of the tie-breaking (the recursion of \<open>_retrieve\<close> reaches a leaf). The
  hypothesis \<open>max_size \<ge> 2\<close> is needed: with \<open>max_size = 1\<close> the only leaf is index
  \<open>0\<close>, its parent index is \<open>-1\<close>, and the recursion never ends.
\<close>

theorem tree_recursion_terminates:
  assumes "SumTree_wf n t" and "0 < n"
  shows "(2 \<le> n \<longrightarrow> (\<forall>i p. int n - 1 \<le> i \<and> i \<le> 2 * int n - 2 \<longrightarrow>
             (\<exists>t'. SumTree_update [i] [p] t = Some (Inr t'))))
       \<and> (\<forall>rnd s. \<exists>r. SumTree_get rnd s t = Some (Inr r))
       \<and> (n = 1 \<longrightarrow> (\<forall>p. SumTree_update [int n - 1] [p] t = None))"
proof (intro conjI impI allI)
  fix i p assume "2 \<le> n" "int n - 1 \<le> i \<and> i \<le> 2 * int n - 2"
  then have "1 \<le> i" "i \<le> 2 * int n - 2" by auto
  from update_terminates [OF assms(1) this] show "\<exists>t'. SumTree_update [i] [p] t = Some (Inr t')" .
next
  fix rnd s
  from get_returns_leaf [OF assms, of rnd s]
  show "\<exists>r. SumTree_get rnd s t = Some (Inr r)" by blast
next
  fix p assume "n = 1"
  with update_root_diverges [OF assms, of p] show "SumTree_update [int n - 1] [p] t = None" by simp
qed

lemma leaves_nth:
  assumes wf: "SumTree_wf n t" and n: "0 < n" and k: "n - 1 \<le> k" "k < 2 * n - 1"
  shows "st_tree t ! k = SumTree_leaves t ! (k - (n - 1))"
proof -
  from wf n have "SumTree_leaves t = drop (n - 1) (st_tree t)" "length (st_tree t) = 2 * n - 1"
    by (auto simp: SumTree_wf_def SumTree_leaves_def)
  with k show ?thesis by simp
qed

text \<open>
  Claim C3, as amended. In a well-formed tree that satisfies the sum invariant and whose
  leaves are all \<open>0\<close> but one, of value \<open>10\<close>, \<open>get(s)\<close> returns that leaf for every
  \<open>s\<close> with \<open>0 < s < 10\<close>, whatever the random tie-breaking does; for \<open>s = 0\<close> it
  does so when the leaf is reached from the root through left children only (the first
  leaf of a tree whose capacity is a power of two).
\<close>

theorem single_leaf_sampling:
  assumes "SumTree_wf n t" and "sum_inv (st_tree t)"
    and "d < n" and "SumTree_leaves t = (replicate n 0)[d := 10]"
    and "0 \<le> s" and "s < 10" and "0 < s \<or> left_spine (n - 1 + d)"
  shows "SumTree_get rnd s t = Some (Inr (int (n - 1 + d), 10, st_data t ! d))"
proof -
  from assms(3) have n: "0 < n" by simp
  have "\<forall>k. n - 1 \<le> k \<and> k < 2 * n - 1 \<longrightarrow> st_tree t ! k = (if k = n - 1 + d then 10 else 0)"
  proof (intro allI impI)
    fix k assume k: "n - 1 \<le> k \<and> k < 2 * n - 1"
    then have "st_tree t ! k = SumTree_leaves t ! (k - (n - 1))"
      using leaves_nth [OF assms(1) n, of k] by blast
    then have "st_tree t ! k = (replicate n 0)[d := 10] ! (k - (n - 1))"
      by (simp only: assms(4))
    also from k n have "k - (n - 1) < n" by auto
    then have "(replicate n 0)[d := 10] ! (k - (n - 1)) = (if k - (n - 1) = d then 10 else (0::real))"
      by (simp add: nth_list_update)
    also from k have "(k - (n - 1) = d) = (k = n - 1 + d)" by auto
    finally show "st_tree t ! k = (if k = n - 1 + d then 10 else 0)" .
  qed
  moreover from assms(3) have "n - 1 \<le> n - 1 + d" "n - 1 + d < 2 * n - 1" by auto
  ultimately have "SumTree_get rnd s t
      = Some (Inr (int (n - 1 + d), 10, st_data t ! (n - 1 + d - (n - 1))))"
    using single_leaf_aux [OF assms(1) n assms(2) _ _ _ assms(5,6,7)] by blast
  then show ?thesis by simp
qed

lemma sum_inv_3: "sum_inv [10, 0, 10, 0, 0]"
proof -
  have "[10, 0, 10, 0, 0] ! i = [10, 0, 10, 0, 0] ! (2 * i + 1) + [10, 0, 10, 0, (0::real)] ! (2 * i + 2)"
    if "2 * i + 2 < 5" for i :: nat
  proof -
    from that have "i = 0 \<or> i = 1" by auto
    then show ?thesis by (elim disjE) simp_all
  qed
  then show ?thesis by (simp add: sum_inv_def)
qed

text \<open>
  The tree of capacity 3 after \<open>add([7], [10])\<close>: its leaves are \<open>10, 0, 0\<close> and the
  first leaf is the right child of the root. \<open>get(5)\<close> returns it.
\<close>

theorem single_leaf_sampling_witness:
  "SumTree_init 3 = Inr \<lparr>st_max_size = 3, st_tree = [0, 0, 0, 0, 0],
       st_data = [None::nat option, None, None], st_idx = 0, st_full = False\<rparr>
   \<and> SumTree_add [7::nat] [10]
        \<lparr>st_max_size = 3, st_tree = [0, 0, 0, 0, 0],
         st_data = [None, None, None], st_idx = 0, st_full = False\<rparr>
      = Some (Inr \<lparr>st_max_size = 3, st_tree = [10, 0, 10, 0, 0],
           st_data = [Some 7, None, None], st_idx = 1, st_full = False\<rparr>)
   \<and> SumTree_get pick_left 5
        \<lparr>st_max_size = 3, st_tree = [10, 0, 10, 0, 0],
         st_data = [Some (7::nat), None, None], st_idx = 1, st_full = False\<rparr>
      = Some (Inr (2, 10, Some 7))"
proof -
  let ?t = "\<lparr>st_max_size = 3, st_tree = [10, 0, 10, 0, 0],
         st_data = [Some (7::nat), None, None], st_idx = 1, st_full = False\<rparr>"
  have wf: "SumTree_wf 3 ?t" by (simp add: SumTree_wf_def)
  have inv: "sum_inv (st_tree ?t)" by (simp add: sum_inv_3)
  have d: "(0::nat) < 3" by simp
  have lv: "SumTree_leaves ?t = (replicate 3 0)[0 := 10]"
    by (simp add: SumTree_leaves_def numeral_3_eq_3)
  have s: "(0::real) \<le> 5" "(5::real) < 10" "(0::real) < 5 \<or> left_spine (3 - 1 + 0)" by simp_all
  from single_leaf_sampling [OF wf inv d lv s, of pick_left]
  have "SumTree_get pick_left 5 ?t = Some (Inr (2, 10, Some 7))" by simp
  moreover have "SumTree_add [7::nat] [10]
        \<lparr>st_max_size = 3, st_tree = [0, 0, 0, 0, 0],
         st_data = [None, None, None], st_idx = 0, st_full = False\<rparr> = Some (Inr ?t)"
    by (simp add: SumTree_add_def SumTree_update_def py_index_def SumTree_propagate.simps)
  moreover have "SumTree_init 3 = Inr \<lparr>st_max_size = 3, st_tree = [0, 0, 0, 0, 0],
       st_data = [None::nat option, None, None], st_idx = 0, st_full = False\<rparr>"
    by (simp add: SumTree_init_def numeral_3_eq_3 numeral_eq_Suc)
  ultimately show ?thesis by simp
qed

text \<open>
  In the same tree \<open>get(0)\<close> goes left at the root (\<open>0 \<le> tree[1] = 0\<close>), into the
  subtree of the two zero leaves, and returns one of them: index 3 or 4, never the
  nonzero leaf at index 2.
\<close>

theorem single_leaf_sampling_counterexample:
  "SumTree_add [7::nat] [10]
        \<lparr>st_max_size = 3, st_tree = [0, 0, 0, 0, 0],
         st_data = [None, None, None], st_idx = 0, st_full = False\<rparr>
      = Some (Inr \<lparr>st_max_size = 3, st_tree = [10, 0, 10, 0, 0],
           st_data = [Some 7, None, None], st_idx = 1, st_full = False\<rparr>)
   \<and> SumTree_leaves \<lparr>st_max_size = 3, st_tree = [10, 0, 10, 0, 0],
         st_data = [Some (7::nat), None, None], st_idx = 1, st_full = False\<rparr> = [10, 0, 0]
   \<and> SumTree_get pick_left 0
        \<lparr>st_max_size = 3, st_tree = [10, 0, 10, 0, 0],
         st_data = [Some (7::nat), None, None], st_idx = 1, st_full = False\<rparr>
      = Some (Inr (3, 0, None))
   \<and> SumTree_get pick_right 0
        \<lparr>st_max_size = 3, st_tree = [10, 0, 10, 0, 0],
         st_data = [Some (7::nat), None, None], st_idx = 1, st_full = False\<rparr>
      = Some (Inr (4, 0, None))"
  by (simp add: SumTree_add_def SumTree_update_def SumTree_propagate.simps
      SumTree_leaves_def SumTree_get_def SumTree_retrieve.simps py_index_def
      pick_left_def pick_right_def)

text \<open>
  The claim as stated (C8: a value outside \<open>[0, total_p)\<close> raises an error) fails: with
  leaves \<open>1, 2\<close> the total is \<open>3\<close>, and \<open>get(5)\<close> and \<open>get(-1)\<close> return a leaf.
\<close>

theorem get_never_checks_range_counterexample:
  "SumTree_add [0::nat, 1] [1, 2]
        \<lparr>st_max_size = 2, st_tree = [0, 0, 0], st_data = [None, None], st_idx = 0, st_full = False\<rparr>
      = Some (Inr \<lparr>st_max_size = 2, st_tree = [3, 1, 2], st_data = [Some 0, Some 1],
                   st_idx = 0, st_full = True\<rparr>)
   \<and> SumTree_total_p \<lparr>st_max_size = 2, st_tree = [3, 1, 2], st_data = [Some (0::nat), Some 1],
                   st_idx = 0, st_full = True\<rparr> = Inr 3
   \<and> SumTree_get pick_left 5 \<lparr>st_max_size = 2, st_tree = [3, 1, 2], st_data = [Some (0::nat), Some 1],
                   st_idx = 0, st_full = True\<rparr> = Some (Inr (2, 2, Some 1))
   \<and> SumTree_get pick_left (- 1) \<lparr>st_max_size = 2, st_tree = [3, 1, 2], st_data = [Some (0::nat), Some 1],
                   st_idx = 0, st_full = True\<rparr> = Some (Inr (1, 1, Some 0))"
  by (simp add: SumTree_add_def SumTree_update_def SumTree_total_p_def SumTree_get_def
      SumTree_retrieve.simps SumTree_propagate.simps py_index_def)

theorem get_never_checks_range_witness:
  "SumTree_wf 2 \<lparr>st_max_size = 2, st_tree = [3, 1, 2], st_data = [Some (0::nat), Some 1],
                   st_idx = 0, st_full = True\<rparr>
   \<and> (\<exists>j. 2 - 1 \<le> j \<and> j < 2 * 2 - 1 \<and>
        SumTree_get pick_left 5 \<lparr>st_max_size = 2, st_tree = [3, 1, 2], st_data = [Some (0::nat), Some 1],
                   st_idx = 0, st_full = True\<rparr>
        = Some (Inr (int j, [3, 1, 2] ! j, [Some 0, Some 1] ! (j - (2 - 1)))))"
proof -
  let ?t = "\<lparr>st_max_size = 2, st_tree = [3, 1, 2], st_data = [Some (0::nat), Some 1],
                   st_idx = 0, st_full = True\<rparr>"
  have wf: "SumTree_wf 2 ?t" by (simp add: SumTree_wf_def)
  have n: "(0::nat) < 2" by simp
  from get_never_checks_range [OF wf n, of pick_left 5] wf show ?thesis by simp
qed

theorem tree_recursion_terminates_witness:
  "SumTree_wf 2 \<lparr>st_max_size = 2, st_tree = [3, 1, 2], st_data = [Some (0::nat), Some 1],
                   st_idx = 0, st_full = True\<rparr>
   \<and> (\<exists>t'. SumTree_update [2] [4] \<lparr>st_max_size = 2, st_tree = [3, 1, 2],
                   st_data = [Some (0::nat), Some 1], st_idx = 0, st_full = True\<rparr> = Some (Inr t'))
   \<and> (\<exists>r. SumTree_get pick_right 1 \<lparr>st_max_size = 2, st_tree = [3, 1, 2],
                   st_data = [Some (0::nat), Some 1], st_idx = 0, st_full = True\<rparr> = Some (Inr r))
   \<and> SumTree_wf 1 \<lparr>st_max_size = 1, st_tree = [0], st_data = [None::nat option],
                   st_idx = 0, st_full = False\<rparr>
   \<and> SumTree_update [0] [4] \<lparr>st_max_size = 1, st_tree = [0], st_data = [None::nat option],
                   st_idx = 0, st_full = False\<rparr> = None"
proof -
  let ?t = "\<lparr>st_max_size = 2, st_tree = [3, 1, 2], st_data = [Some (0::nat), Some 1],
                   st_idx = 0, st_full = True\<rparr>"
  let ?u = "\<lparr>st_max_size = 1, st_tree = [0], st_data = [None::nat option],
                   st_idx = 0, st_full = False\<rparr>"
  have wf: "SumTree_wf 2 ?t" by (simp add: SumTree_wf_def)
  have n: "(0::nat) < 2" by simp
  have wf1: "SumTree_wf 1 ?u" by (simp add: SumTree_wf_def)
  have n1: "(0::nat) < 1" by simp
  from tree_recursion_terminates [OF wf n] tree_recursion_terminates [OF wf1 n1] wf wf1
  show ?thesis by simp
qed

lemma anc_leaf_eq:
  assumes "m \<le> k" "i \<le> 2 * m"
  shows "anc k i = (k = i)"
proof (cases "k = i")
  case True then show ?thesis by (simp add: anc_refl)
next
  case False
  have "\<not> anc k i"
  proof
    assume "anc k i"
    from anc_proper_internal [OF this False] assms show False by simp
  qed
  with False show ?thesis by simp
qed

lemma wf_leaves:
  assumes "SumTree_wf n t" "0 < n"
  shows "SumTree_leaves t = drop (n - 1) (st_tree t)" "length (SumTree_leaves t) = n"
  using assms by (auto simp: SumTree_wf_def SumTree_leaves_def)

lemma add_step:
  assumes n: "2 \<le> n" and inv: "SumTree_inv n t"
  shows "\<exists>t'. SumTree_add_loop ((d, p) # dps) t = SumTree_add_loop dps t'
      \<and> SumTree_inv n t'
      \<and> SumTree_leaves t' = (SumTree_leaves t)[st_idx t := p]
      \<and> st_data t' = (st_data t)[st_idx t := Some d]
      \<and> st_idx t' = (if st_idx t + 1 = n then 0 else st_idx t + 1)
      \<and> st_full t' = (st_full t \<or> st_idx t + 1 = n)"
proof -
  from inv have wf: "SumTree_wf n t" by (simp add: SumTree_inv_def)
  then have ix: "st_idx t < n" "st_max_size t = n" "length (st_data t) = n"
    "length (st_tree t) = 2 * n - 1"
    by (simp_all add: SumTree_wf_def)
  define i where "i = st_idx t + n - 1"
  define t1 where "t1 = t\<lparr>st_data := (st_data t)[st_idx t := Some d]\<rparr>"
  from inv have inv1: "SumTree_inv n t1"
    by (simp add: t1_def SumTree_inv_def SumTree_wf_def)
  from ix n have ir: "n - 1 \<le> i" "i \<le> 2 * n - 2" by (auto simp: i_def)
  from update_one_inv [OF n inv1 ir, of p "[]"]
  obtain tree' where t': "SumTree_update_loop [(int i, p)] t1 = Some (Inr (t1\<lparr>st_tree := tree'\<rparr>))"
    "SumTree_inv n (t1\<lparr>st_tree := tree'\<rparr>)"
    "\<forall>k < length (st_tree t1). tree' ! k = st_tree t1 ! k + (if anc k i then p - st_tree t1 ! i else 0)"
    by auto
  define t2 where "t2 = t1\<lparr>st_tree := tree'\<rparr>"
  define t3 where "t3 = (if st_idx t2 + 1 = st_max_size t2
                  then t2\<lparr>st_idx := 0, st_full := True\<rparr>
                  else t2\<lparr>st_idx := st_idx t2 + 1\<rparr>)"
  from ix n have ii: "int (st_idx t) + int n - 1 = int i" by (auto simp: i_def)
  have run: "SumTree_add_loop ((d, p) # dps) t = SumTree_add_loop dps t3"
    using ix t'(1) ii
    by (simp add: py_index_def t1_def [symmetric] SumTree_update_def t3_def t2_def)
  from t'(2) have len': "length tree' = 2 * n - 1" by (simp add: SumTree_inv_def SumTree_wf_def)
  from t'(2) ix n have inv3: "SumTree_inv n t3"
    by (auto simp: t3_def t2_def t1_def SumTree_inv_def SumTree_wf_def)
  have lv: "drop (n - 1) tree' = (drop (n - 1) (st_tree t))[st_idx t := p]"
  proof (rule nth_equalityI)
    show "length (drop (n - 1) tree') = length ((drop (n - 1) (st_tree t))[st_idx t := p])"
      using len' ix by simp
  next
    fix j assume "j < length (drop (n - 1) tree')"
    with len' n have j: "j < n" by auto
    with n ix have k: "n - 1 + j < length (st_tree t1)" by (auto simp: t1_def)
    from ir n have "anc (n - 1 + j) i = (n - 1 + j = i)"
      using anc_leaf_eq [of "n - 1" "n - 1 + j" i] by auto
    also from n have "\<dots> = (j = st_idx t)" by (auto simp: i_def)
    finally have a: "anc (n - 1 + j) i = (j = st_idx t)" .
    from t'(3) k have "tree' ! (n - 1 + j)
        = st_tree t1 ! (n - 1 + j) + (if anc (n - 1 + j) i then p - st_tree t1 ! i else 0)"
      by blast
    then have "tree' ! (n - 1 + j)
        = st_tree t ! (n - 1 + j) + (if j = st_idx t then p - st_tree t ! i else 0)"
      unfolding a by (simp add: t1_def)
    moreover from n have "j = st_idx t \<Longrightarrow> n - 1 + j = i" by (auto simp: i_def)
    ultimately have "tree' ! (n - 1 + j) = (if j = st_idx t then p else st_tree t ! (n - 1 + j))"
      by auto
    with j ix len' n show "drop (n - 1) tree' ! j = (drop (n - 1) (st_tree t))[st_idx t := p] ! j"
      by (simp add: nth_list_update)
  qed
  from inv3 n have wf3: "SumTree_wf n t3" by (simp add: SumTree_inv_def)
  have "SumTree_leaves t3 = drop (n - 1) tree'"
    using wf_leaves(1) [OF wf3] n by (simp add: t3_def t2_def)
  moreover have "SumTree_leaves t = drop (n - 1) (st_tree t)"
    using wf_leaves(1) [OF wf] n by simp
  ultimately have "SumTree_leaves t3 = (SumTree_leaves t)[st_idx t := p]" using lv by simp
  moreover have "st_data t3 = (st_data t)[st_idx t := Some d]"
    by (simp add: t3_def t2_def t1_def)
  moreover have "st_idx t3 = (if st_idx t + 1 = n then 0 else st_idx t + 1)"
    using ix by (simp add: t3_def t2_def t1_def)
  moreover have "st_full t3 = (st_full t \<or> st_idx t + 1 = n)"
    using ix by (simp add: t3_def t2_def t1_def)
  ultimately show ?thesis using run inv3 by blast
qed

lemma add_loop_prefix:
  assumes n: "2 \<le> n"
  shows "SumTree_inv n t \<Longrightarrow> st_idx t + length dps < n \<Longrightarrow>
    \<exists>t'. SumTree_add_loop dps t = Some (Inr t') \<and> SumTree_inv n t'
      \<and> SumTree_leaves t' = take (st_idx t) (SumTree_leaves t) @ map snd dps
            @ drop (st_idx t + length dps) (SumTree_leaves t)
      \<and> st_idx t' = st_idx t + length dps \<and> st_full t' = st_full t"
proof (induction dps arbitrary: t)
  case Nil
  then show ?case by simp
next
  case (Cons dp dps)
  obtain d p where dp: "dp = (d, p)" by (cases dp)
  from add_step [OF n Cons.prems(1), of d p dps] Cons.prems(2)
  obtain t1 where t1: "SumTree_add_loop ((d, p) # dps) t = SumTree_add_loop dps t1"
    "SumTree_inv n t1" "SumTree_leaves t1 = (SumTree_leaves t)[st_idx t := p]"
    "st_idx t1 = st_idx t + 1" "st_full t1 = st_full t"
    by auto
  from Cons.prems(2) t1(4) have "st_idx t1 + length dps < n" by simp
  from Cons.IH [OF t1(2) this]
  obtain t' where t': "SumTree_add_loop dps t1 = Some (Inr t')" "SumTree_inv n t'"
    "SumTree_leaves t' = take (st_idx t1) (SumTree_leaves t1) @ map snd dps
            @ drop (st_idx t1 + length dps) (SumTree_leaves t1)"
    "st_idx t' = st_idx t1 + length dps" "st_full t' = st_full t1"
    by blast
  from Cons.prems(1) n have "length (SumTree_leaves t) = n"
    using wf_leaves(2) [of n t] by (simp add: SumTree_inv_def)
  with Cons.prems(2) have "take (st_idx t + 1) ((SumTree_leaves t)[st_idx t := p])
      = take (st_idx t) (SumTree_leaves t) @ [p]"
    by (simp add: take_Suc_conv_app_nth)
  with t'(3) t1(3,4) have "SumTree_leaves t' = take (st_idx t) (SumTree_leaves t) @ map snd (dp # dps)
            @ drop (st_idx t + length (dp # dps)) (SumTree_leaves t)"
    by (simp add: dp)
  with t' t1 dp show ?case by simp
qed

lemma init_data_ok: "SumTree_init n = Inr t \<Longrightarrow> SumTree_data_ok t"
  by (auto simp: SumTree_init_def SumTree_data_ok_def split: if_splits)

lemma add_loop_data_ok:
  assumes n: "2 \<le> n"
  shows "SumTree_inv n t \<Longrightarrow> SumTree_data_ok t \<Longrightarrow>
    \<exists>t'. SumTree_add_loop dps t = Some (Inr t') \<and> SumTree_inv n t' \<and> SumTree_data_ok t'"
proof (induction dps arbitrary: t)
  case Nil
  then show ?case by simp
next
  case (Cons dp dps)
  obtain d p where dp: "dp = (d, p)" by (cases dp)
  from Cons.prems(1) have wf: "st_max_size t = n" "st_idx t < n" "length (st_data t) = n"
    by (simp_all add: SumTree_inv_def SumTree_wf_def)
  from add_step [OF n Cons.prems(1), of d p dps]
  obtain t1 where t1: "SumTree_add_loop ((d, p) # dps) t = SumTree_add_loop dps t1"
    "SumTree_inv n t1" "st_data t1 = (st_data t)[st_idx t := Some d]"
    "st_idx t1 = (if st_idx t + 1 = n then 0 else st_idx t + 1)"
    "st_full t1 = (st_full t \<or> st_idx t + 1 = n)"
    by blast
  from t1(2) have wf1: "st_max_size t1 = n" by (simp add: SumTree_inv_def SumTree_wf_def)
  have "SumTree_data_ok t1"
    unfolding SumTree_data_ok_def
  proof (intro allI impI)
    fix k assume k: "k < length (st_data t1)" "st_data t1 ! k \<noteq> None"
    show "k < SumTree_size t1"
    proof (cases "k = st_idx t")
      case True
      with wf wf1 t1(4,5) show ?thesis by (auto simp: SumTree_size_def)
    next
      case False
      with k t1(3) have "k < length (st_data t)" "st_data t ! k \<noteq> None" by simp_all
      with Cons.prems(2) have "k < SumTree_size t" by (simp add: SumTree_data_ok_def)
      with wf wf1 t1(4,5) show ?thesis by (auto simp: SumTree_size_def split: if_splits)
    qed
  qed
  from Cons.IH [OF t1(2) this] t1(1) dp show ?case by simp
qed

lemma run_data_ok:
  assumes n: "2 \<le> n"
  shows "SumTree_inv n t \<Longrightarrow> SumTree_data_ok t \<Longrightarrow> list_all (SumTree_call_ok n) calls \<Longrightarrow>
     \<exists>t'. SumTree_run calls t = Some (Inr t') \<and> SumTree_inv n t' \<and> SumTree_data_ok t'"
proof (induction calls arbitrary: t)
  case Nil
  then show ?case by simp
next
  case (Cons c cs)
  show ?case
  proof (cases c)
    case (Add dataset priority)
    from add_loop_data_ok [OF n Cons.prems(1,2), of "zip dataset priority"]
    obtain t' where "SumTree_add dataset priority t = Some (Inr t')" "SumTree_inv n t'"
      "SumTree_data_ok t'"
      by (auto simp: SumTree_add_def)
    with Cons.IH [of t'] Cons.prems(3) Add show ?thesis by simp
  next
    case (Update idx priorities)
    with Cons.prems(3) have "list_all (\<lambda>i. int n - 1 \<le> i \<and> i \<le> 2 * int n - 2) idx" by simp
    from update_inv [OF n Cons.prems(1) this, of priorities]
    obtain t' where t': "SumTree_update idx priorities t = Some (Inr t')" "SumTree_inv n t'"
      "st_data t' = st_data t" "st_idx t' = st_idx t" "st_full t' = st_full t"
      by blast
    from t'(2) Cons.prems(1) have "st_max_size t' = st_max_size t"
      by (simp add: SumTree_inv_def SumTree_wf_def)
    with t'(4,5) have "SumTree_size t' = SumTree_size t" by (simp add: SumTree_size_def)
    with t'(3) Cons.prems(2) have "SumTree_data_ok t'"
      by (simp add: SumTree_data_ok_def)
    with Cons.IH [of t'] t'(1,2) Cons.prems(3) Update show ?thesis by simp
  qed
qed

text \<open>
  Every tree reached from the constructor (capacity at least 2) by \<open>add\<close> calls and
  \<open>update\<close> calls on leaf indices is well formed, and only slots below \<open>size\<close> hold a
  payload.
\<close>

lemma reachable_tree_ok:
  assumes "2 \<le> n" and "SumTree_init n = Inr t0" and "list_all (SumTree_call_ok n) calls"
  shows "\<exists>t. SumTree_run calls t0 = Some (Inr t) \<and> SumTree_wf n t \<and> SumTree_data_ok t"
proof -
  from init_inv [OF assms(2)] have "SumTree_inv n t0" by simp
  from run_data_ok [OF assms(1) this init_data_ok [OF assms(2)] assms(3)]
  show ?thesis by (auto simp: SumTree_inv_def)
qed

subsection \<open>Rounding to \<open>float64\<close>\<close>

lemma rne_of_int: "rne (of_int k) = k"
  by (simp add: rne_def)

lemma rne_ge: "of_int k \<le> r \<Longrightarrow> k \<le> rne r"
proof -
  assume "of_int k \<le> r"
  then have "k \<le> \<lfloor>r\<rfloor>" by (simp add: le_floor_iff)
  then show ?thesis by (simp add: rne_def Let_def)
qed

lemma rne_le: "r \<le> of_int k \<Longrightarrow> rne r \<le> k"
proof -
  assume a: "r \<le> of_int k"
  show ?thesis
  proof (cases "r = of_int k")
    case True
    then show ?thesis by (simp add: rne_of_int)
  next
    case False
    with a have "r < of_int k" by simp
    then have "\<lfloor>r\<rfloor> < k" by (simp add: floor_less_iff)
    then show ?thesis by (simp add: rne_def Let_def)
  qed
qed


lemma rne_small: "0 \<le> r \<Longrightarrow> r < 1 / 2 \<Longrightarrow> rne r = 0"
proof -
  assume a: "0 \<le> r" "r < 1 / 2"
  then have "\<lfloor>r\<rfloor> = 0" by (simp add: floor_unique)
  with a show ?thesis by (simp add: rne_def Let_def)
qed

lemma two_powr_powi: "(2::real) powr of_int e = 2 powi e"
  by (simp add: powr_real_of_int')

lemma floor_log2: "0 < x \<Longrightarrow> 2 powi e \<le> x \<Longrightarrow> x < 2 powi (e + 1) \<Longrightarrow> \<lfloor>log 2 x\<rfloor> = e"
  using floor_log_eq_powr_iff [of x 2 e] two_powr_powi [of e] two_powr_powi [of "e + 1"]
  by simp

lemma binade_exists:
  assumes "0 < (x::real)"
  shows "2 powi \<lfloor>log 2 x\<rfloor> \<le> x \<and> x < 2 powi (\<lfloor>log 2 x\<rfloor> + 1)"
  using floor_log_eq_powr_iff [of x 2 "\<lfloor>log 2 x\<rfloor>"] assms
    two_powr_powi [of "\<lfloor>log 2 x\<rfloor>"] two_powr_powi [of "\<lfloor>log 2 x\<rfloor> + 1"]
  by simp

text \<open>The value of \<open>f64_round\<close> in a normal binade and in the subnormal range.\<close>

lemma f64_round_normal:
  assumes "2 powi e \<le> \<bar>x\<bar>" and "\<bar>x\<bar> < 2 powi (e + 1)" and "- 1022 \<le> e"
  shows "f64_round x =
           (let y = 2 powi (e - 52) * of_int (rne (x / 2 powi (e - 52)))
            in if 2 powi 1024 \<le> \<bar>y\<bar> then (if 0 < x then PInf else NInf) else Fin y)"
proof -
  have "0 < (2::real) powi e" by simp
  with assms(1) have pos: "0 < \<bar>x\<bar>" by linarith
  then have nz: "x \<noteq> 0" by simp
  from floor_log2 [OF pos assms(1) assms(2)] have "\<lfloor>log 2 \<bar>x\<bar>\<rfloor> = e" .
  with assms(3) have "max \<lfloor>log 2 \<bar>x\<bar>\<rfloor> (- 1022) = e" by simp
  then show ?thesis using nz by (simp add: f64_round_def Let_def)
qed

lemma f64_round_subnormal:
  assumes "x \<noteq> 0" and "\<bar>x\<bar> < 2 powi (- 1022)"
  shows "f64_round x =
           (let y = 2 powi (- 1074) * of_int (rne (x / 2 powi (- 1074)))
            in if 2 powi 1024 \<le> \<bar>y\<bar> then (if 0 < x then PInf else NInf) else Fin y)"
proof -
  from assms(1) have pos: "0 < \<bar>x\<bar>" by simp
  from binade_exists [OF pos] have "2 powi \<lfloor>log 2 \<bar>x\<bar>\<rfloor> \<le> \<bar>x\<bar>" by simp
  with assms(2) have "(2::real) powi \<lfloor>log 2 \<bar>x\<bar>\<rfloor> < 2 powi (- 1022)" by linarith
  then have "\<lfloor>log 2 \<bar>x\<bar>\<rfloor> < - 1022"
    by (smt (verit) power_int_increasing)
  then have "max \<lfloor>log 2 \<bar>x\<bar>\<rfloor> (- 1022) = - 1022" by simp
  then show ?thesis using assms(1) by (simp add: f64_round_def Let_def)
qed

lemma f64_round_exact:
  assumes "2 powi e \<le> \<bar>x\<bar>" and "\<bar>x\<bar> < 2 powi (e + 1)" and "- 1022 \<le> e" and "e < 1024"
    and "x = 2 powi (e - 52) * of_int k"
  shows "f64_round x = Fin x"
proof -
  have u: "(2::real) powi (e - 52) \<noteq> 0" by simp
  have "x / 2 powi (e - 52) = of_int k"
    by (subst assms(5)) (simp only: nonzero_mult_div_cancel_left [OF u])
  then have y: "2 powi (e - 52) * of_int (rne (x / 2 powi (e - 52))) = x"
    by (simp only: rne_of_int assms(5) [symmetric])
  from assms(4) have "(2::real) powi (e + 1) \<le> 2 powi 1024"
    by (intro power_int_increasing) auto
  with assms(2) have "\<not> 2 powi 1024 \<le> \<bar>x\<bar>" by linarith
  with f64_round_normal [OF assms(1) assms(2) assms(3)] y show ?thesis
    by (simp only: Let_def if_False)
qed

lemma f64_round_pow2:
  assumes "- 1022 \<le> k" and "k < 1024"
  shows "f64_round (2 powi k) = Fin (2 powi k)"
proof -
  have a: "(2::real) powi k \<le> \<bar>2 powi k\<bar>" by simp
  have b: "\<bar>(2::real) powi k\<bar> < 2 powi (k + 1)"
    using power_int_strict_increasing [of k "k + 1" "2::real"] by simp
  have "(2::real) powi k = 2 powi (k - 52 + 52)" by simp
  also have "\<dots> = 2 powi (k - 52) * 2 powi 52" by (rule power_int_add) simp
  also have "(2::real) powi 52 = of_int (2 ^ 52)" by simp
  finally have c: "(2::real) powi k = 2 powi (k - 52) * of_int (2 ^ 52)" .
  from f64_round_exact [OF a b assms c] show ?thesis .
qed

text \<open>Integers of magnitude at most \<open>2 ^ 53\<close> are \<open>float64\<close> values.\<close>

lemma f64_round_int:
  assumes "\<bar>z\<bar> \<le> 2 ^ 53"
  shows "f64_round (of_int z) = Fin (of_int z)"
proof (cases "z = 0")
  case True
  then show ?thesis by (simp add: f64_round_def)
next
  case False
  define x :: real where "x = of_int z"
  define e where "e = \<lfloor>log 2 \<bar>x\<bar>\<rfloor>"
  from False have x1: "1 \<le> \<bar>x\<bar>" by (simp add: x_def flip: of_int_abs)
  then have pos: "0 < \<bar>x\<bar>" by linarith
  from assms have x2: "\<bar>x\<bar> \<le> 2 ^ 53"
  proof -
    from assms have "(of_int \<bar>z\<bar> :: real) \<le> of_int (2 ^ 53)" by (simp only: of_int_le_iff)
    then show ?thesis by (simp add: x_def)
  qed
  from binade_exists [OF pos] have lo: "2 powi e \<le> \<bar>x\<bar>" and hi: "\<bar>x\<bar> < 2 powi (e + 1)"
    by (simp_all add: e_def)
  have e0: "0 \<le> e"
  proof (rule ccontr)
    assume "\<not> 0 \<le> e"
    then have "e + 1 \<le> 0" by simp
    then have "(2::real) powi (e + 1) \<le> 2 powi 0" by (intro power_int_increasing) auto
    with hi x1 show False by simp
  qed
  have e53: "e \<le> 53"
  proof (rule ccontr)
    assume "\<not> e \<le> 53"
    then have "54 \<le> e" by simp
    then have "(2::real) powi 54 \<le> 2 powi e" by (intro power_int_increasing) auto
    with lo x2 show False by simp
  qed
  have "\<exists>k. x = 2 powi (e - 52) * of_int k"
  proof (cases "e \<le> 52")
    case True
    define d where "d = nat (52 - e)"
    have "(2::real) powi (e - 52) * 2 powi (52 - e) = 2 powi (e - 52 + (52 - e))"
      by (rule power_int_add [symmetric]) simp
    then have inv: "(2::real) powi (e - 52) * 2 powi (52 - e) = 1" by simp
    from True have "(2::real) powi (52 - e) = 2 ^ d" by (simp add: power_int_def d_def)
    with inv have inv': "(2::real) powi (e - 52) * 2 ^ d = 1" by simp
    have "2 powi (e - 52) * of_int (z * 2 ^ d) = (2 powi (e - 52) * 2 ^ d) * x"
      by (simp add: x_def)
    with inv' have "x = 2 powi (e - 52) * of_int (z * 2 ^ d)" by simp
    then show ?thesis ..
  next
    case False
    with e53 have e: "e = 53" by simp
    with lo x2 have ax: "\<bar>x\<bar> = 2 ^ 53" by simp
    then have "\<bar>of_int z :: real\<bar> = of_int (2 ^ 53)" by (simp add: x_def)
    then have "\<bar>z\<bar> = 2 ^ 53" by (simp only: of_int_eq_iff flip: of_int_abs)
    then have "even \<bar>z\<bar>" by simp
    then have "even z" by simp
    then have "z = 2 * (z div 2)" by simp
    then have "x = 2 * of_int (z div 2)" unfolding x_def
      by (metis of_int_mult of_int_numeral)
    with e show ?thesis by auto
  qed
  then obtain k where k: "x = 2 powi (e - 52) * of_int k" ..
  from e0 e53 have "- 1022 \<le> e" "e < 1024" by simp_all
  from f64_round_exact [OF lo hi this k] show ?thesis by (simp add: x_def)
qed

lemma f64_round_1: "f64_round 1 = Fin 1"
  using f64_round_int [of 1] by simp

text \<open>Rounding keeps the unit interval and the sign.\<close>

lemma f64_round_nonneg:
  assumes "0 \<le> x"
  shows "f64_round x = PInf \<or> (\<exists>y. f64_round x = Fin y \<and> 0 \<le> y)"
proof (cases "x = 0")
  case True
  then show ?thesis by (simp add: f64_round_def)
next
  case False
  with assms have xp: "0 < x" by simp
  define u :: real where "u = 2 powi (max \<lfloor>log 2 \<bar>x\<bar>\<rfloor> (- 1022) - 52)"
  have up: "0 < u" by (simp add: u_def)
  with xp have "of_int 0 \<le> x / u" by simp
  then have "0 \<le> rne (x / u)" by (rule rne_ge)
  with up have "0 \<le> u * of_int (rne (x / u))" by simp
  then show ?thesis using xp False by (simp add: f64_round_def Let_def u_def)
qed

lemma f64_round_unit:
  assumes "0 \<le> x" and "x \<le> 1"
  shows "\<exists>y. f64_round x = Fin y \<and> 0 \<le> y \<and> y \<le> 1"
proof (cases "x = 0")
  case True
  then show ?thesis by (simp add: f64_round_def)
next
  case False
  with assms have xp: "0 < x" by simp
  define e where "e = max \<lfloor>log 2 \<bar>x\<bar>\<rfloor> (- 1022)"
  define u :: real where "u = 2 powi (e - 52)"
  have up: "0 < u" by (simp add: u_def)
  from xp assms(2) have "log 2 \<bar>x\<bar> \<le> 0" by simp
  then have "\<lfloor>log 2 \<bar>x\<bar>\<rfloor> \<le> 0" by (simp add: floor_le_iff)
  then have e0: "e \<le> 0" by (simp add: e_def)
  define d where "d = nat (52 - e)"
  have "u * 2 powi (52 - e) = 2 powi (e - 52 + (52 - e))"
    unfolding u_def by (rule power_int_add [symmetric]) simp
  then have "u * 2 powi (52 - e) = 1" by simp
  moreover from e0 have "(2::real) powi (52 - e) = 2 ^ d" by (simp add: power_int_def d_def)
  ultimately have inv: "u * 2 ^ d = 1" by simp
  then have "1 / u = 2 ^ d" using up by (simp add: field_simps)
  with assms(2) up have "x / u \<le> of_int (2 ^ d)"
    by (simp add: field_simps)
  then have le: "rne (x / u) \<le> 2 ^ d" by (rule rne_le)
  from xp up have "of_int 0 \<le> x / u" by simp
  then have ge: "0 \<le> rne (x / u)" by (rule rne_ge)
  define y where "y = u * of_int (rne (x / u))"
  from ge up have y0: "0 \<le> y" by (simp add: y_def)
  from le have "(of_int (rne (x / u)) :: real) \<le> of_int (2 ^ d)" by (simp only: of_int_le_iff)
  with up have "y \<le> u * of_int (2 ^ d)" unfolding y_def by (intro mult_left_mono) auto
  with inv have y1: "y \<le> 1" by simp
  have "(1::real) < 2 powi 1024" by simp
  with y0 y1 have "\<not> 2 powi 1024 \<le> \<bar>y\<bar>" by linarith
  then have "f64_round x = Fin y" using False
    by (simp add: f64_round_def Let_def y_def u_def e_def)
  with y0 y1 show ?thesis by blast
qed

subsection \<open>\<open>SumTree\<close> in \<open>float64\<close>: when the sums are exact\<close>
















lemma nn_round: "0 \<le> x \<Longrightarrow> f64_not_neg (f64_round x)"
  using f64_round_nonneg [of x] by (auto simp: f64_not_neg_def)

lemma nn_div: "0 < p \<Longrightarrow> 0 < t \<Longrightarrow> f64_not_neg (f64_div (Fin p) (Fin t))"
  by (simp add: nn_round)

lemma nn_mul: "f64_not_neg a \<Longrightarrow> f64_not_neg b \<Longrightarrow> f64_not_neg (f64_mul a b)"
  by (cases a; cases b) (auto simp: f64_not_neg_def [of "Fin _"] f64_not_neg_def [of PInf]
      f64_not_neg_def [of NInf] f64_not_neg_def [of NaN] nn_round)

lemma nn_pow: "f64_not_neg a \<Longrightarrow> f64_not_neg (f64_pow a y)"
  by (cases a) (auto simp: f64_pow_def f64_not_neg_def [of "Fin _"] f64_not_neg_def [of PInf]
      f64_not_neg_def [of NInf] f64_not_neg_def [of NaN] nn_round)

lemma nn_raw:
  assumes "0 < p" and "0 < t"
  shows "f64_not_neg (raw_weight sz (Fin t) beta (Fin p))"
  unfolding raw_weight_def
  by (intro nn_pow nn_mul nn_round nn_div assms) simp

lemma nn_max2: "f64_not_neg a \<Longrightarrow> f64_not_neg b \<Longrightarrow> f64_not_neg (f64_max2 a b)"
  by (cases a; cases b) (auto simp: f64_not_neg_def)

lemma max2_Fin:
  assumes "f64_max2 a b = Fin v" and "f64_not_neg a" and "f64_not_neg b"
  obtains x y where "a = Fin x" "b = Fin y" "v = max x y"
  using assms by (cases a; cases b) (auto simp: f64_not_neg_def)

text \<open>
  When the maximum of an array without negative entries is a finite number \<open>M\<close>, every
  entry is a finite number between \<open>0\<close> and \<open>M\<close>, and \<open>M\<close> is one of them.
\<close>

lemma foldl_max2_Fin:
  "\<forall>b \<in> set (a # xs). f64_not_neg b \<Longrightarrow> foldl f64_max2 a xs = Fin M \<Longrightarrow>
   (\<forall>b \<in> set (a # xs). \<exists>v. b = Fin v \<and> 0 \<le> v \<and> v \<le> M) \<and> Fin M \<in> set (a # xs)"
proof (induction xs arbitrary: a)
  case Nil
  then show ?case by (auto simp: f64_not_neg_def)
next
  case (Cons x xs)
  from Cons.prems(1) have na: "f64_not_neg a" and nx: "f64_not_neg x"
    and nxs: "\<forall>b \<in> set xs. f64_not_neg b" by simp_all
  from nn_max2 [OF na nx] nxs have "\<forall>b \<in> set (f64_max2 a x # xs). f64_not_neg b" by simp
  moreover from Cons.prems(2) have "foldl f64_max2 (f64_max2 a x) xs = Fin M" by simp
  ultimately have ih: "\<forall>b \<in> set (f64_max2 a x # xs). \<exists>v. b = Fin v \<and> 0 \<le> v \<and> v \<le> M"
    and top: "Fin M \<in> set (f64_max2 a x # xs)"
    using Cons.IH [of "f64_max2 a x"] by blast+
  from ih obtain v0 where v0: "f64_max2 a x = Fin v0" "0 \<le> v0" "v0 \<le> M" by auto
  from max2_Fin [OF v0(1) na nx]
  obtain va vx where ax: "a = Fin va" "x = Fin vx" "v0 = max va vx" by blast
  from na nx ax have "0 \<le> va" "0 \<le> vx" by (simp_all add: f64_not_neg_def)
  with ax v0 ih have "\<forall>b \<in> set (a # x # xs). \<exists>v. b = Fin v \<and> 0 \<le> v \<and> v \<le> M" by auto
  moreover from top v0(1) ax have "Fin M \<in> set (a # x # xs)" by (auto simp: max_def split: if_splits)
  ultimately show ?case by blast
qed

lemma foldl_max2_top:
  "\<forall>b \<in> set (a # xs). \<exists>v. b = Fin v \<and> v \<le> M \<Longrightarrow> Fin M \<in> set (a # xs) \<Longrightarrow>
   foldl f64_max2 a xs = Fin M"
proof (induction xs arbitrary: a)
  case Nil
  then show ?case by simp
next
  case (Cons x xs)
  from Cons.prems(1) obtain va vx where ax: "a = Fin va" "x = Fin vx" "va \<le> M" "vx \<le> M" by auto
  then have m: "f64_max2 a x = Fin (max va vx)" "max va vx \<le> M" by simp_all
  with Cons.prems(1) have "\<forall>b \<in> set (f64_max2 a x # xs). \<exists>v. b = Fin v \<and> v \<le> M" by simp
  moreover from Cons.prems(2) ax m have "Fin M \<in> set (f64_max2 a x # xs)" by (auto simp: max_def)
  ultimately have "foldl f64_max2 (f64_max2 a x) xs = Fin M" by (rule Cons.IH)
  then show ?case by simp
qed

lemma f64_max_Fin:
  assumes "\<forall>b \<in> set xs. f64_not_neg b" and "f64_max xs = Inr (Fin M)"
  shows "(\<forall>b \<in> set xs. \<exists>v. b = Fin v \<and> 0 \<le> v \<and> v \<le> M) \<and> Fin M \<in> set xs"
proof -
  from assms(2) obtain a rest where xs: "xs = a # rest" "foldl f64_max2 a rest = Fin M"
    by (auto simp: f64_max_def split: list.splits)
  from foldl_max2_Fin [OF _ xs(2)] assms(1) xs(1) show ?thesis by simp
qed

lemma f64_max_top:
  assumes "\<forall>b \<in> set xs. \<exists>v. b = Fin v \<and> v \<le> M" and "Fin M \<in> set xs"
  shows "f64_max xs = Inr (Fin M)"
proof -
  from assms(2) obtain a rest where xs: "xs = a # rest" by (cases xs) auto
  from foldl_max2_top [of a rest M] assms xs show ?thesis by (simp add: f64_max_def)
qed

text \<open>Dividing by the maximum.\<close>

lemma div_by_max:
  assumes "0 \<le> v" and "v \<le> M" and "0 < M"
  shows "\<exists>w. f64_div (Fin v) (Fin M) = Fin w \<and> 0 \<le> w \<and> w \<le> 1"
proof -
  from assms have "0 \<le> v / M" "v / M \<le> 1" by simp_all
  from f64_round_unit [OF this] assms(3) show ?thesis by simp
qed

lemma div_max_self: "M \<noteq> 0 \<Longrightarrow> f64_div (Fin M) (Fin M) = Fin 1"
  by (simp add: f64_round_1)

lemma normalised_weights:
  assumes nn: "\<forall>b \<in> set raws. f64_not_neg b"
    and mx: "f64_max raws = Inr (Fin M)" and M: "M \<noteq> 0"
  shows "f64_max (map (\<lambda>x. f64_div x (Fin M)) raws) = Inr (Fin 1)"
    and "\<forall>w \<in> set (map (\<lambda>x. f64_div x (Fin M)) raws). \<exists>v. w = Fin v \<and> 0 \<le> v \<and> v \<le> 1"
proof -
  from f64_max_Fin [OF nn mx]
  have fin: "\<forall>b \<in> set raws. \<exists>v. b = Fin v \<and> 0 \<le> v \<and> v \<le> M" and top: "Fin M \<in> set raws"
    by blast+
  from fin top have "0 \<le> M" by auto
  with M have Mp: "0 < M" by simp
  show b: "\<forall>w \<in> set (map (\<lambda>x. f64_div x (Fin M)) raws). \<exists>v. w = Fin v \<and> 0 \<le> v \<and> v \<le> 1"
  proof
    fix w assume "w \<in> set (map (\<lambda>x. f64_div x (Fin M)) raws)"
    then obtain r where r: "r \<in> set raws" "w = f64_div r (Fin M)" by auto
    with fin obtain v where v: "r = Fin v" "0 \<le> v" "v \<le> M" by blast
    from div_by_max [OF v(2,3) Mp] r(2) v(1) show "\<exists>v. w = Fin v \<and> 0 \<le> v \<and> v \<le> 1" by simp
  qed
  from top have "(\<lambda>x. f64_div x (Fin M)) (Fin M) \<in> (\<lambda>x. f64_div x (Fin M)) ` set raws"
    by (rule imageI)
  then have "f64_div (Fin M) (Fin M) \<in> set (map (\<lambda>x. f64_div x (Fin M)) raws)"
    by (simp only: set_map)
  with div_max_self [OF M] have t1: "Fin 1 \<in> set (map (\<lambda>x. f64_div x (Fin M)) raws)" by simp
  from b have "\<forall>w \<in> set (map (\<lambda>x. f64_div x (Fin M)) raws). \<exists>v. w = Fin v \<and> v \<le> 1" by blast
  from f64_max_top [OF this t1] show "f64_max (map (\<lambda>x. f64_div x (Fin M)) raws) = Inr (Fin 1)" .
qed

subsection \<open>Powers of two at the ends of the \<open>float64\<close> range\<close>

lemma two_powi_split: "(2::real) powi k = 2 powi (k - j) * 2 powi j"
proof -
  have "(2::real) powi (k - j + j) = 2 powi (k - j) * 2 powi j" by (rule power_int_add) simp
  then show ?thesis by simp
qed

lemma two_powi_nat: "0 \<le> j \<Longrightarrow> (2::real) powi j = of_int (2 ^ nat j)"
  by (simp add: power_int_def)

lemma f64_round_pow2_sub:
  assumes "- 1074 \<le> k" and "k < - 1022"
  shows "f64_round (2 powi k) = Fin (2 powi k)"
proof -
  have nz: "(2::real) powi k \<noteq> 0" by simp
  from assms(2) have "(2::real) powi k < 2 powi (- 1022)"
    by (intro power_int_strict_increasing) auto
  then have lt: "\<bar>(2::real) powi k\<bar> < 2 powi (- 1022)" by simp
  from assms(1) have j: "0 \<le> k + 1074" by simp
  have "(2::real) powi k = 2 powi (k - (k + 1074)) * 2 powi (k + 1074)" by (rule two_powi_split)
  with two_powi_nat [OF j] have e: "(2::real) powi k = 2 powi (- 1074) * of_int (2 ^ nat (k + 1074))"
    by simp
  have u: "(2::real) powi (- 1074) \<noteq> 0" by simp
  have "(2::real) powi k / 2 powi (- 1074) = of_int (2 ^ nat (k + 1074))"
    by (subst e) (simp only: nonzero_mult_div_cancel_left [OF u])
  then have y: "(2::real) powi (- 1074) * of_int (rne ((2::real) powi k / 2 powi (- 1074))) = 2 powi k"
    by (simp only: rne_of_int e [symmetric])
  have "(2::real) powi (- 1022) \<le> 2 powi 1024" by (intro power_int_increasing) auto
  with lt have "\<not> 2 powi 1024 \<le> \<bar>(2::real) powi k\<bar>" by linarith
  with f64_round_subnormal [OF nz lt] y show ?thesis by (simp only: Let_def if_False)
qed

lemma f64_round_pow2_overflow:
  assumes "1024 \<le> k"
  shows "f64_round (2 powi k) = PInf"
proof -
  have a: "(2::real) powi k \<le> \<bar>2 powi k\<bar>" by simp
  have b: "\<bar>(2::real) powi k\<bar> < 2 powi (k + 1)"
    using power_int_strict_increasing [of k "k + 1" "2::real"] by simp
  from assms have c: "- 1022 \<le> k" by simp
  have "(2::real) powi k = 2 powi (k - 52) * 2 powi 52" by (rule two_powi_split)
  also have "(2::real) powi 52 = of_int (2 ^ 52)" by simp
  finally have e: "(2::real) powi k = 2 powi (k - 52) * of_int (2 ^ 52)" .
  have u: "(2::real) powi (k - 52) \<noteq> 0" by simp
  have "(2::real) powi k / 2 powi (k - 52) = of_int (2 ^ 52)"
    by (subst e) (simp only: nonzero_mult_div_cancel_left [OF u])
  then have y: "(2::real) powi (k - 52) * of_int (rne ((2::real) powi k / 2 powi (k - 52))) = 2 powi k"
    by (simp only: rne_of_int e [symmetric])
  from assms have "(2::real) powi 1024 \<le> 2 powi k" by (intro power_int_increasing) auto
  then have big: "2 powi 1024 \<le> \<bar>(2::real) powi k\<bar>" by simp
  have pos: "0 < (2::real) powi k" by simp
  from f64_round_normal [OF a b c] y big pos show ?thesis by (simp only: Let_def if_True)
qed

lemma f64_round_pow2_underflow:
  assumes "k < - 1075"
  shows "f64_round (2 powi k) = Fin 0"
proof -
  have nz: "(2::real) powi k \<noteq> 0" by simp
  from assms have "(2::real) powi k < 2 powi (- 1022)"
    by (intro power_int_strict_increasing) auto
  then have lt: "\<bar>(2::real) powi k\<bar> < 2 powi (- 1022)" by simp
  have "(2::real) powi k = 2 powi (k - (- 1074)) * 2 powi (- 1074)" by (rule two_powi_split)
  then have q: "(2::real) powi k / 2 powi (- 1074) = 2 powi (k + 1074)" by simp
  from assms have "(2::real) powi (k + 1074) \<le> 2 powi (- 2)"
    by (intro power_int_increasing) auto
  also have "(2::real) powi (- 2) < 1 / 2" by (simp add: power_int_minus)
  finally have "(2::real) powi (k + 1074) < 1 / 2" .
  moreover have "0 \<le> (2::real) powi (k + 1074)" by simp
  ultimately have "rne ((2::real) powi (k + 1074)) = 0" by (intro rne_small)
  with q have "rne ((2::real) powi k / 2 powi (- 1074)) = 0" by simp
  with f64_round_subnormal [OF nz lt] show ?thesis by (simp add: Let_def)
qed

lemma rne_near: "0 \<le> d \<Longrightarrow> d < 1 / 2 \<Longrightarrow> rne (of_int k + d) = k"
proof -
  assume a: "0 \<le> d" "d < 1 / 2"
  then have "\<lfloor>of_int k + d\<rfloor> = k" by (intro floor_unique) auto
  with a show ?thesis by (simp add: rne_def Let_def)
qed

text \<open>Adding less than \<open>2 ^ -53\<close> to \<open>1\<close> gives \<open>1\<close>.\<close>

lemma f64_round_one_plus:
  assumes "0 \<le> d" and "d < 2 powi (- 53)"
  shows "f64_round (1 + d) = Fin 1"
proof -
  have p53: "(2::real) powi (- 53) \<le> 1" using power_int_increasing [of "- 53" 0 "2::real"] by simp
  with assms have d1: "d < 1" by linarith
  from assms(1) have a: "(2::real) powi 0 \<le> \<bar>1 + d\<bar>" by simp
  from assms(1) d1 have b: "\<bar>1 + d\<bar> < 2 powi (0 + 1)" by simp
  have c: "(- 1022 :: int) \<le> 0" by simp
  have u: "(2::real) powi (0 - 52) = 1 / 2 ^ 52" by (simp add: power_int_minus field_simps)
  have "(2::real) powi (- 53) * 2 ^ 52 = 2 powi (- 53) * 2 powi 52" by simp
  also have "\<dots> = 2 powi (- 53 + 52)" by (rule power_int_add [symmetric]) simp
  also have "\<dots> = 1 / 2" by (simp add: power_int_minus)
  finally have h: "(2::real) powi (- 53) * 2 ^ 52 = 1 / 2" .
  from assms(2) have "d * 2 ^ 52 < 2 powi (- 53) * 2 ^ 52" by (intro mult_strict_right_mono) auto
  with h have dl: "d * 2 ^ 52 < 1 / 2" by simp
  from assms(1) have d0: "0 \<le> d * 2 ^ 52" by simp
  have q: "(1 + d) / 2 powi (0 - 52) = of_int (2 ^ 52) + d * 2 ^ 52"
    by (simp add: u field_simps)
  from d0 dl have "rne (of_int (2 ^ 52) + d * 2 ^ 52) = 2 ^ 52" by (rule rne_near)
  with q have r: "rne ((1 + d) / 2 powi (0 - 52)) = 2 ^ 52" by (simp only:)
  have "(2::real) powi (0 - 52) * of_int (rne ((1 + d) / 2 powi (0 - 52)))
          = 2 powi (0 - 52) * of_int (2 ^ 52)"
    by (simp only: r)
  also have "\<dots> = 1" by (simp add: u)
  finally have "(2::real) powi (0 - 52) * of_int (rne ((1 + d) / 2 powi (0 - 52))) = 1" .
  with f64_round_normal [OF a b c] show ?thesis by (simp add: Let_def)
qed

lemma two_powi_powr: "((2::real) powi a) powr y = 2 powr (of_int a * y)"
  by (simp only: two_powr_powi [symmetric] powr_powr)

subsection \<open>\<open>SumTree.max_p\<close>\<close>

lemma init_fields:
  assumes "SumTree_init n = Inr t"
  shows "st_idx t = 0" "st_full t = False" "st_tree t = replicate (2 * n - 1) 0" "0 < n"
  using assms by (auto simp: SumTree_init_def split: if_splits)

lemma Max_append_zeros:
  fixes ps :: "real list"
  assumes "ps \<noteq> []" "0 < k"
  shows "Max (set (ps @ replicate k 0)) = max (Max (set ps)) 0"
proof -
  from assms(2) have "set (ps @ replicate k (0::real)) = insert 0 (set ps)" by auto
  with assms(1) show ?thesis by (simp add: max.commute)
qed

text \<open>
  Claim C7, as amended. After \<open>add\<close> has written \<open>k\<close> priorities into an empty tree,
  \<open>0 < k < max_size\<close> (the tree is non-empty and not full), the leaves are the written
  priorities followed by the zeros of the slots never written, and \<open>max_p\<close> is the maximum
  over all \<open>max_size\<close> leaves: the larger of the greatest written priority and \<open>0\<close>.
\<close>

theorem max_p_over_all_leaves:
  assumes "2 \<le> n" and "SumTree_init n = Inr t0"
    and "length dataset = length priority"
    and "0 < length priority" and "length priority < n"
  shows "\<exists>t. SumTree_add dataset priority t0 = Some (Inr t)
           \<and> SumTree_size t = length priority \<and> \<not> st_full t
           \<and> SumTree_leaves t = priority @ replicate (n - length priority) 0
           \<and> SumTree_max_p t = Inr (max (Max (set priority)) 0)"
proof -
  define dps where "dps = zip dataset priority"
  from assms(3) have dps: "map snd dps = priority" "length dps = length priority"
    by (simp_all add: dps_def)
  from init_inv [OF assms(2)] have inv: "SumTree_inv n t0" by simp
  note f = init_fields [OF assms(2)]
  from inv f(4) have lv0: "SumTree_leaves t0 = replicate n 0"
    using wf_leaves(1) [of n t0] f(3) by (simp add: SumTree_inv_def)
  from assms(5) f(1) dps have "st_idx t0 + length dps < n" by simp
  from add_loop_prefix [OF assms(1) inv this]
  obtain t where t: "SumTree_add_loop dps t0 = Some (Inr t)" "SumTree_inv n t"
    "SumTree_leaves t = take (st_idx t0) (SumTree_leaves t0) @ map snd dps
            @ drop (st_idx t0 + length dps) (SumTree_leaves t0)"
    "st_idx t = st_idx t0 + length dps" "st_full t = st_full t0"
    by blast
  from t(3) f(1) lv0 dps have lv: "SumTree_leaves t = priority @ replicate (n - length priority) 0"
    by simp
  from assms(4) have ne: "priority \<noteq> []" by auto
  from assms(5) have "0 < n - length priority" by simp
  from Max_append_zeros [OF ne this] lv ne
  have "SumTree_max_p t = Inr (max (Max (set priority)) 0)"
    by (simp add: SumTree_max_p_def)
  moreover from t(4,5) f dps have "SumTree_size t = length priority" "\<not> st_full t"
    by (simp_all add: SumTree_size_def)
  ultimately show ?thesis using t(1) lv by (simp add: SumTree_add_def dps_def)
qed

theorem max_p_over_all_leaves_witness:
  "SumTree_init 3 = Inr \<lparr>st_max_size = 3, st_tree = [0, 0, 0, 0, 0],
       st_data = [None::nat option, None, None], st_idx = 0, st_full = False\<rparr>
   \<and> (\<exists>t. SumTree_add [0::nat, 1] [2, 5]
          \<lparr>st_max_size = 3, st_tree = [0, 0, 0, 0, 0],
           st_data = [None, None, None], st_idx = 0, st_full = False\<rparr> = Some (Inr t)
        \<and> SumTree_size t = 2 \<and> \<not> st_full t
        \<and> SumTree_leaves t = [2, 5, 0]
        \<and> SumTree_max_p t = Inr 5)"
proof -
  have n: "(2::nat) \<le> 3" by simp
  have i: "SumTree_init 3 = Inr \<lparr>st_max_size = 3, st_tree = [0, 0, 0, 0, 0],
       st_data = [None::nat option, None, None], st_idx = 0, st_full = False\<rparr>"
    by (simp add: SumTree_init_def numeral_eq_Suc)
  have l: "length [0::nat, 1] = length [2::real, 5]" "0 < length [2::real, 5]"
    "length [2::real, 5] < 3" by simp_all
  from max_p_over_all_leaves [OF n i l] i show ?thesis by (simp add: numeral_eq_Suc)
qed

text \<open>
  The claim as stated (C7: the maximum is taken over the written leaves only) fails when
  the written priorities are negative: after \<open>add([0], [-1])\<close> on a tree of capacity 2 the
  tree is non-empty and not full, the only written leaf holds \<open>-1\<close>, and \<open>max_p\<close> and
  \<open>max_priority\<close> are \<open>0\<close>, the value of the leaf that was never written.
\<close>

theorem max_p_over_all_leaves_counterexample:
  "SumTree_add [0::nat] [- 1]
       \<lparr>st_max_size = 2, st_tree = [0, 0, 0], st_data = [None, None], st_idx = 0, st_full = False\<rparr>
     = Some (Inr \<lparr>st_max_size = 2, st_tree = [- 1, - 1, 0], st_data = [Some 0, None],
                  st_idx = 1, st_full = False\<rparr>)
   \<and> SumTree_size \<lparr>st_max_size = 2, st_tree = [- 1, - 1, 0], st_data = [Some (0::nat), None],
                  st_idx = 1, st_full = False\<rparr> = 1
   \<and> SumTree_leaves \<lparr>st_max_size = 2, st_tree = [- 1, - 1, 0], st_data = [Some (0::nat), None],
                  st_idx = 1, st_full = False\<rparr> = [- 1, 0]
   \<and> SumTree_max_p \<lparr>st_max_size = 2, st_tree = [- 1, - 1, 0], st_data = [Some (0::nat), None],
                  st_idx = 1, st_full = False\<rparr> = Inr 0
   \<and> PrioritizedReplayMemory_max_priority
        \<lparr>pr_initial_size = 0, pr_max_size = 2, pr_alpha = 1, pr_beta = 1, pr_epsilon = 0,
         pr_tree = \<lparr>st_max_size = 2, st_tree = [- 1, - 1, 0],
                    st_data = [Some ((0::nat, 0::nat, 0, 0, False, False)), None],
                    st_idx = 1, st_full = False\<rparr>\<rparr> = Inr 0"
  by (simp add: SumTree_add_def SumTree_update_def py_index_def SumTree_propagate.simps
      SumTree_size_def SumTree_leaves_def SumTree_max_p_def
      PrioritizedReplayMemory_max_priority_def PrioritizedReplayMemory_initialized_def)

subsection \<open>The weights of \<open>PrioritizedReplayMemory.get\<close>\<close>

lemma get_loop_props:
  assumes wf: "SumTree_wf n t" and n: "0 < n"
  shows "PrioritizedReplayMemory_get_loop rnds i samples t = Some (Inr picked) \<Longrightarrow>
     length picked = length samples
     \<and> map (\<lambda>(idx, p, x). p) picked = map (\<lambda>idx. st_tree t ! nat idx) (map (\<lambda>(idx, p, x). idx) picked)
     \<and> (picked \<noteq> [] \<longrightarrow> (\<exists>k < length (st_data t). st_data t ! k \<noteq> None))"
proof (induction samples arbitrary: i picked)
  case Nil
  then show ?case by auto
next
  case (Cons s samples)
  from get_returns_leaf [OF wf n, of "rnds i" s]
  obtain j where j: "SumTree_get (rnds i) s t
      = Some (Inr (int j, st_tree t ! j, st_data t ! (j - (n - 1))))"
    and jr: "n - 1 \<le> j" "j < 2 * n - 1" by blast
  from wf jr n have dj: "j - (n - 1) < length (st_data t)" by (auto simp: SumTree_wf_def)
  from Cons.prems j obtain x rest where
    x: "st_data t ! (j - (n - 1)) = Some x"
    and rest: "PrioritizedReplayMemory_get_loop rnds (Suc i) samples t = Some (Inr rest)"
    and p: "picked = (int j, st_tree t ! j, x) # rest"
    by (auto split: option.splits sum.splits)
  from x have "st_data t ! (j - (n - 1)) \<noteq> None" by simp
  with dj have "\<exists>k < length (st_data t). st_data t ! k \<noteq> None" by blast
  with Cons.IH [OF rest] p show ?case by simp
qed

text \<open>
  Claim C4, as amended. Take a prioritized memory with a well-formed tree (the arrays
  have the lengths the constructor gives them, as in every state that \<open>add\<close> and
  \<open>update\<close> reach: \<open>reachable_tree_ok\<close>) and a positive \<open>total_p\<close>. If
  \<open>get(n_samples)\<close> returns, every sampled priority (\<open>tree[idx]\<close> for the returned
  \<open>idxs\<close>) is positive, and the largest of the \<open>float64\<close> values
  \<open>r = (size * priority / total_p) ** (- beta)\<close> of the batch is a finite number \<open>M\<close>
  other than \<open>0\<close> (no power overflows to \<open>inf\<close>, and they do not all underflow to \<open>0\<close>),
  then there is one weight per sample, each weight is \<open>r / M\<close> (a \<open>float64\<close> division) for
  its sample, every weight is a finite number from \<open>0\<close> to \<open>1\<close>, and the maximum of the
  weights is exactly \<open>1\<close>. The statement is for every outcome \<open>u\<close>, \<open>rnds\<close> of the
  sampling, that is for whichever leaves \<open>idxs\<close> the lookups return.
\<close>

theorem importance_weights:
  assumes "SumTree_wf n (pr_tree m)" and "0 < n"
    and "PrioritizedReplayMemory_get n_samples u rnds m
           = Some (Inr (ss, acts, rs, nss, abss, ls, idxs, W))"
    and "SumTree_total_p (pr_tree m) = Inr total_p" and "0 < total_p"
    and "\<forall>idx \<in> set idxs. 0 < st_tree (pr_tree m) ! nat idx"
    and "f64_max (map (\<lambda>idx. raw_weight (SumTree_size (pr_tree m)) (Fin total_p) (pr_beta m)
                                (Fin (st_tree (pr_tree m) ! nat idx))) idxs) = Inr (Fin M)"
    and "M \<noteq> 0"
  shows "length W = n_samples
     \<and> W = map (\<lambda>idx. f64_div (raw_weight (SumTree_size (pr_tree m)) (Fin total_p) (pr_beta m)
                                  (Fin (st_tree (pr_tree m) ! nat idx))) (Fin M)) idxs
     \<and> f64_max W = Inr (Fin 1)
     \<and> (\<forall>w \<in> set W. \<exists>v. w = Fin v \<and> 0 \<le> v \<and> v \<le> 1)"
proof -
  let ?t = "pr_tree m"
  let ?sz = "SumTree_size ?t"
  let ?raw = "\<lambda>p. raw_weight ?sz (Fin total_p) (pr_beta m) (Fin p)"
  define samples where "samples = map (\<lambda>i. real i * (total_p / real n_samples)
      + (real (i + 1) * (total_p / real n_samples) - real i * (total_p / real n_samples)) * u i)
      [0..<n_samples]"
  from assms(3,4) obtain picked where
    loop: "PrioritizedReplayMemory_get_loop rnds 0 samples ?t = Some (Inr picked)"
    and ix: "idxs = map (\<lambda>(idx, p, x). idx) picked"
    and W: "is_weight ?sz (Fin total_p) (pr_beta m) (map (\<lambda>(idx, p, x). Fin p) picked) = Inr W"
    by (auto simp: PrioritizedReplayMemory_get_def Let_def samples_def
        split: option.splits sum.splits)
  from get_loop_props [OF assms(1,2) loop] ix
  have len: "length picked = n_samples"
    and ps: "map (\<lambda>(idx, p, x). p) picked = map (\<lambda>idx. st_tree ?t ! nat idx) idxs"
    by (simp_all add: samples_def)
  have "map (\<lambda>(idx, p, x). Fin p) picked = map Fin (map (\<lambda>(idx, p, x). p) picked)"
    by (simp add: case_prod_beta)
  with ps have fps: "map (\<lambda>(idx, p, x). Fin p) picked = map (\<lambda>idx. Fin (st_tree ?t ! nat idx)) idxs"
    by simp
  define raws where "raws = map (\<lambda>idx. ?raw (st_tree ?t ! nat idx)) idxs"
  from assms(7) have mx: "f64_max raws = Inr (Fin M)" by (simp add: raws_def)
  from W fps mx have Weq: "W = map (\<lambda>x. f64_div x (Fin M)) raws"
    by (simp add: is_weight_def Let_def raws_def comp_def)
  have nn: "\<forall>b \<in> set raws. f64_not_neg b"
  proof
    fix b assume "b \<in> set raws"
    then obtain idx where "idx \<in> set idxs" "b = ?raw (st_tree ?t ! nat idx)"
      by (auto simp: raws_def)
    with assms(6) nn_raw [OF _ assms(5)] show "f64_not_neg b" by simp
  qed
  from normalised_weights [OF nn mx assms(8)] Weq
  have "f64_max W = Inr (Fin 1)" "\<forall>w \<in> set W. \<exists>v. w = Fin v \<and> 0 \<le> v \<and> v \<le> 1"
    by simp_all
  moreover from len ix Weq have "length W = n_samples" by (simp add: raws_def)
  moreover from Weq have "W = map (\<lambda>idx. f64_div (?raw (st_tree ?t ! nat idx)) (Fin M)) idxs"
    by (simp add: raws_def comp_def)
  ultimately show ?thesis by blast
qed

lemma tiny_facts:
  "0 < p_tiny" "p_tiny < 1 / 2" "p_tiny \<noteq> 1" "\<not> 1 / 2 \<le> p_tiny" "p_tiny \<noteq> 0"
proof -
  show "0 < p_tiny" by (simp add: p_tiny_def)
  have "(2::real) powi (- 1060) \<le> 2 powi (- 2)" by (intro power_int_increasing) auto
  also have "(2::real) powi (- 2) < 1 / 2" by (simp add: power_int_minus)
  finally show a: "p_tiny < 1 / 2" by (simp add: p_tiny_def)
  then show "p_tiny \<noteq> 1" "\<not> 1 / 2 \<le> p_tiny" by simp_all
  show "p_tiny \<noteq> 0" by (simp add: p_tiny_def)
qed

lemma two_tiny: "2 * p_tiny = 2 powi (- 1059)"
proof -
  have "(2::real) powi (- 1059) = 2 powi (- 1059 - 1) * 2 powi 1" by (rule two_powi_split)
  then show ?thesis by (simp add: p_tiny_def)
qed

lemma f64_round_small_values:
  "f64_round 1 = Fin 1" "f64_round 2 = Fin 2" "f64_round 4 = Fin 4"
  "f64_round (1 / 2) = Fin (1 / 2)" "f64_round (1 / 4) = Fin (1 / 4)"
  using f64_round_pow2 [of 0] f64_round_pow2 [of 1] f64_round_pow2 [of 2]
    f64_round_pow2 [of "- 1"] f64_round_pow2 [of "- 2"]
  by (simp_all add: power_int_minus)

lemma f64_round_tiny:
  "f64_round p_tiny = Fin p_tiny" "f64_round (2 * p_tiny) = Fin (2 * p_tiny)"
  "f64_round (p_tiny + 1) = Fin 1"
proof -
  show "f64_round p_tiny = Fin p_tiny"
    unfolding p_tiny_def by (rule f64_round_pow2_sub) simp_all
  show "f64_round (2 * p_tiny) = Fin (2 * p_tiny)"
    unfolding two_tiny by (rule f64_round_pow2_sub) simp_all
  have "(2::real) powi (- 1060) < 2 powi (- 53)" by (intro power_int_strict_increasing) auto
  then have "p_tiny < 2 powi (- 53)" by (simp add: p_tiny_def)
  from f64_round_one_plus [OF _ this] tiny_facts(1) show "f64_round (p_tiny + 1) = Fin 1"
    by (simp add: add.commute)
qed

text \<open>
  The values \<open>(size * priority / total_p) ** (- beta)\<close> used below. With \<open>total_p = 1\<close>,
  \<open>size = 2\<close> and the priority \<open>2 ^ -1060\<close>: for \<open>beta = 1\<close> the power is \<open>2 ^ 1059\<close>,
  which overflows; for \<open>beta = - 2\<close> it is \<open>2 ^ -2118\<close>, which underflows to \<open>0\<close>.
\<close>

lemma raw_values:
  "raw_weight 4 (Fin 8) 1 (Fin 4) = Fin (1 / 2)"
  "raw_weight 4 (Fin 8) 1 (Fin 2) = Fin 1"
  "raw_weight 2 (Fin 0) 1 (Fin 1) = Fin 0"
  "raw_weight 2 (Fin 1) 1 (Fin 1) = Fin (1 / 2)"
  "raw_weight 2 (Fin 1) 1 (Fin p_tiny) = PInf"
  "raw_weight 2 (Fin 1) (- 2) (Fin p_tiny) = Fin 0"
proof -
  have inv2: "(2::real) powr (- 1) = 1 / 2" by (simp add: powr_neg_one)
  show "raw_weight 4 (Fin 8) 1 (Fin 4) = Fin (1 / 2)"
    by (simp add: raw_weight_def f64_pow_def f64_round_small_values inv2)
  show "raw_weight 4 (Fin 8) 1 (Fin 2) = Fin 1"
    by (simp add: raw_weight_def f64_pow_def f64_round_small_values)
  show "raw_weight 2 (Fin 0) 1 (Fin 1) = Fin 0"
    by (simp add: raw_weight_def f64_pow_def f64_round_small_values)
  show "raw_weight 2 (Fin 1) 1 (Fin 1) = Fin (1 / 2)"
    by (simp add: raw_weight_def f64_pow_def f64_round_small_values inv2)
  have base: "f64_mul (f64_round (real 2)) (f64_div (Fin p_tiny) (Fin 1)) = Fin (2 * p_tiny)"
    by (simp add: f64_round_small_values f64_round_tiny)
  have pos: "0 < 2 * p_tiny" using tiny_facts(1) by simp
  have "(2 * p_tiny) powr (- 1) = 2 powr (of_int (- 1059) * (- 1))"
    unfolding two_tiny by (rule two_powi_powr)
  also have "\<dots> = 2 powr (of_int 1059)" by simp
  also have "\<dots> = 2 powi 1059" by (rule two_powr_powi)
  finally have "f64_round ((2 * p_tiny) powr (- 1)) = PInf"
    by (simp only: f64_round_pow2_overflow)
  with pos have "f64_pow (Fin (2 * p_tiny)) (- 1) = PInf" by (simp add: f64_pow_def)
  with base show "raw_weight 2 (Fin 1) 1 (Fin p_tiny) = PInf"
    by (simp only: raw_weight_def)
  have "(2 * p_tiny) powr 2 = 2 powr (of_int (- 1059) * 2)"
    unfolding two_tiny by (rule two_powi_powr)
  also have "\<dots> = 2 powr (of_int (- 2118))" by simp
  also have "\<dots> = 2 powi (- 2118)" by (rule two_powr_powi)
  finally have "f64_round ((2 * p_tiny) powr 2) = Fin 0"
    by (simp only: f64_round_pow2_underflow)
  with pos have "f64_pow (Fin (2 * p_tiny)) (- (- 2)) = Fin 0" by (simp add: f64_pow_def)
  with base show "raw_weight 2 (Fin 1) (- 2) (Fin p_tiny) = Fin 0"
    by (simp only: raw_weight_def)
qed

text \<open>
  A full memory of capacity 4 with the priorities \<open>4\<close>, \<open>2\<close>, \<open>1\<close>, \<open>1\<close> (\<open>total_p = 8\<close>) and
  \<open>beta = 1\<close>: two samples, each in the middle of its segment (\<open>2\<close> and \<open>6\<close>), pick the
  leaves of priority \<open>4\<close> and \<open>2\<close>; the powers are \<open>1/2\<close> and \<open>1\<close>, their maximum is \<open>1\<close>.
\<close>

theorem importance_weights_witness:
  "SumTree_wf 4 \<lparr>st_max_size = 4, st_tree = [8, 6, 2, 4, 2, 1, 1],
                  st_data = [Some (0::nat, 0::nat, 0::real, 0::nat, False, False),
                             Some (1, 1, 1, 1, False, False),
                             Some (2, 2, 2, 2, False, False), Some (3, 3, 3, 3, True, True)],
                  st_idx = 0, st_full = True\<rparr>
   \<and> PrioritizedReplayMemory_get 2 (\<lambda>i. 1 / 2) coins_left
      \<lparr>pr_initial_size = 0, pr_max_size = 4, pr_alpha = 1, pr_beta = 1, pr_epsilon = 0,
       pr_tree = \<lparr>st_max_size = 4, st_tree = [8, 6, 2, 4, 2, 1, 1],
                  st_data = [Some (0::nat, 0::nat, 0, 0, False, False), Some (1, 1, 1, 1, False, False),
                             Some (2, 2, 2, 2, False, False), Some (3, 3, 3, 3, True, True)],
                  st_idx = 0, st_full = True\<rparr>\<rparr>
     = Some (Inr ([0, 1], [0, 1], [0, 1], [0, 1], [False, False], [False, False], [3, 4],
                  [Fin (1 / 2), Fin 1]))
   \<and> f64_max [raw_weight 4 (Fin 8) 1 (Fin 4), raw_weight 4 (Fin 8) 1 (Fin 2)] = Inr (Fin 1)
   \<and> f64_max [Fin (1 / 2), Fin 1] = Inr (Fin 1)
   \<and> list_all (\<lambda>w. \<exists>v. w = Fin v \<and> 0 \<le> v \<and> v \<le> 1)
        [Fin (1 / 2), Fin 1]"
proof -
  let ?t = "\<lparr>st_max_size = 4, st_tree = [8, 6, 2, 4, 2, 1, 1],
                  st_data = [Some (0::nat, 0::nat, 0::real, 0::nat, False, False),
                             Some (1, 1, 1, 1, False, False),
                             Some (2, 2, 2, 2, False, False), Some (3, 3, 3, 3, True, True)],
                  st_idx = 0, st_full = True\<rparr>"
  let ?m = "\<lparr>pr_initial_size = 0, pr_max_size = 4, pr_alpha = 1, pr_beta = 1, pr_epsilon = 0,
       pr_tree = ?t\<rparr>"
  let ?W = "[Fin (1 / 2), Fin 1]"
  have u2: "[0..<2] = [0, 1]" by (simp add: numeral_2_eq_2)
  have wf: "SumTree_wf 4 (pr_tree ?m)" by (simp add: SumTree_wf_def)
  have n: "(0::nat) < 4" by simp
  have mx: "f64_max [raw_weight 4 (Fin 8) 1 (Fin 4), raw_weight 4 (Fin 8) 1 (Fin 2)] = Inr (Fin 1)"
    by (simp add: raw_values f64_max_def)
  have g: "PrioritizedReplayMemory_get 2 (\<lambda>i. 1 / 2) coins_left ?m
     = Some (Inr ([0, 1], [0, 1], [0, 1], [0, 1], [False, False], [False, False], [3, 4], ?W))"
    using mx
    by (simp add: PrioritizedReplayMemory_get_def SumTree_total_p_def SumTree_get_def
        SumTree_retrieve.simps py_index_def SumTree_size_def coins_left_def is_weight_def
        raw_values u2 f64_round_small_values
        tr_state_def tr_action_def tr_reward_def tr_next_state_def tr_absorbing_def tr_last_def)
  have tp: "SumTree_total_p (pr_tree ?m) = Inr 8" "(0::real) < 8"
    by (simp_all add: SumTree_total_p_def py_index_def)
  have pos: "\<forall>idx \<in> set [3, 4]. 0 < st_tree (pr_tree ?m) ! nat idx" by simp
  have mx': "f64_max (map (\<lambda>idx. raw_weight (SumTree_size (pr_tree ?m)) (Fin 8) (pr_beta ?m)
                                (Fin (st_tree (pr_tree ?m) ! nat idx))) [3, 4]) = Inr (Fin 1)"
    using mx by (simp add: SumTree_size_def)
  have M: "(1::real) \<noteq> 0" by simp
  from importance_weights [OF wf n g tp pos mx' M]
  have "f64_max ?W = Inr (Fin 1)" "\<forall>w \<in> set ?W. \<exists>v. w = Fin v \<and> 0 \<le> v \<and> v \<le> 1"
    by blast+
  then have "f64_max ?W = Inr (Fin 1)" "list_all (\<lambda>w. \<exists>v. w = Fin v \<and> 0 \<le> v \<and> v \<le> 1) ?W"
    by (simp_all only: list_all_iff)
  with wf g mx show ?thesis by simp
qed

text \<open>
  The claim as stated (C4) asks only for positive sampled priorities.
  \<^item> With the priorities \<open>1\<close> and \<open>-1\<close> the total is \<open>0\<close>; the sample at \<open>0\<close> picks the leaf of
    priority \<open>1\<close>, its probability is \<open>1 / 0 = inf\<close>, the power is \<open>0\<close> and the weight is
    \<open>0 / 0 = nan\<close>.
  \<^item> With the priorities \<open>2 ^ -1060\<close> and \<open>1\<close>, \<open>add\<close> leaves the tree
    \<open>[1, 2 ^ -1060, 1]\<close> (the root is \<open>2 ^ -1060 + 1\<close> rounded). With \<open>beta = 1\<close> two
    samples, at \<open>0\<close> and \<open>1/2\<close>, pick the two leaves; both priorities and the total are
    positive; the power for the first is \<open>2 ^ 1059\<close>, which overflows to \<open>inf\<close>, and the
    weights are \<open>inf / inf = nan\<close> and \<open>0\<close>.
  \<^item> The same tree with \<open>beta = - 2\<close> and one sample: the power \<open>2 ^ -2118\<close> underflows to
    \<open>0\<close> and the weight is \<open>0 / 0 = nan\<close>.
  In each case the maximum of the weights is not \<open>1\<close>.
\<close>

theorem importance_weights_counterexample:
  "PrioritizedReplayMemory_add [(0::nat, 0::nat, 0, 0, False, False), (1, 1, 1, 1, True, True)] [1, - 1]
      \<lparr>pr_initial_size = 0, pr_max_size = 2, pr_alpha = 1, pr_beta = 1, pr_epsilon = 0,
       pr_tree = \<lparr>st_max_size = 2, st_tree = [0, 0, 0], st_data = [None, None],
                  st_idx = 0, st_full = False\<rparr>\<rparr>
     = Some (Inr \<lparr>pr_initial_size = 0, pr_max_size = 2, pr_alpha = 1, pr_beta = 1, pr_epsilon = 0,
       pr_tree = \<lparr>st_max_size = 2, st_tree = [0, 1, - 1],
                  st_data = [Some (0, 0, 0, 0, False, False), Some (1, 1, 1, 1, True, True)],
                  st_idx = 0, st_full = True\<rparr>\<rparr>)
   \<and> PrioritizedReplayMemory_get 1 draw_zero coins_left
      \<lparr>pr_initial_size = 0, pr_max_size = 2, pr_alpha = 1, pr_beta = 1, pr_epsilon = 0,
       pr_tree = \<lparr>st_max_size = 2, st_tree = [0, 1, - 1],
                  st_data = [Some (0::nat, 0::nat, 0, 0, False, False),
                             Some (1, 1, 1, 1, True, True)],
                  st_idx = 0, st_full = True\<rparr>\<rparr>
     = Some (Inr ([0], [0], [0], [0], [False], [False], [1], [NaN]))
   \<and> [0, 1, - 1 :: real] ! nat 1 = 1
   \<and> SumTreeF_add [(0::nat, 0::nat, 0::real, 0::nat, False, False), (1, 1, 1, 1, True, True)]
        [Fin p_tiny, Fin 1]
        \<lparr>ft_max_size = 2, ft_tree = [Fin 0, Fin 0, Fin 0], ft_data = [None, None],
         ft_idx = 0, ft_full = False\<rparr>
     = Some (Inr \<lparr>ft_max_size = 2, ft_tree = [Fin 1, Fin p_tiny, Fin 1],
                  ft_data = [Some (0, 0, 0, 0, False, False), Some (1, 1, 1, 1, True, True)],
                  ft_idx = 0, ft_full = True\<rparr>)
   \<and> p_tiny = 2 powi (- 1060) \<and> f64_round p_tiny = Fin p_tiny \<and> 0 < p_tiny
   \<and> PrioritizedReplayMemory_get 2 draw_zero coins_left
      \<lparr>pr_initial_size = 0, pr_max_size = 2, pr_alpha = 1, pr_beta = 1, pr_epsilon = 0,
       pr_tree = \<lparr>st_max_size = 2, st_tree = [1, p_tiny, 1],
                  st_data = [Some (0::nat, 0::nat, 0, 0, False, False),
                             Some (1, 1, 1, 1, True, True)],
                  st_idx = 0, st_full = True\<rparr>\<rparr>
     = Some (Inr ([0, 1], [0, 1], [0, 1], [0, 1], [False, True], [False, True], [1, 2],
                  [NaN, Fin 0]))
   \<and> PrioritizedReplayMemory_get 1 draw_zero coins_left
      \<lparr>pr_initial_size = 0, pr_max_size = 2, pr_alpha = 1, pr_beta = - 2, pr_epsilon = 0,
       pr_tree = \<lparr>st_max_size = 2, st_tree = [1, p_tiny, 1],
                  st_data = [Some (0::nat, 0::nat, 0, 0, False, False),
                             Some (1, 1, 1, 1, True, True)],
                  st_idx = 0, st_full = True\<rparr>\<rparr>
     = Some (Inr ([0], [0], [0], [0], [False], [False], [1], [NaN]))"
proof -
  have a1: "PrioritizedReplayMemory_add
      [(0::nat, 0::nat, 0, 0, False, False), (1, 1, 1, 1, True, True)] [1, - 1]
      \<lparr>pr_initial_size = 0, pr_max_size = 2, pr_alpha = 1, pr_beta = 1, pr_epsilon = 0,
       pr_tree = \<lparr>st_max_size = 2, st_tree = [0, 0, 0], st_data = [None, None],
                  st_idx = 0, st_full = False\<rparr>\<rparr>
     = Some (Inr \<lparr>pr_initial_size = 0, pr_max_size = 2, pr_alpha = 1, pr_beta = 1, pr_epsilon = 0,
       pr_tree = \<lparr>st_max_size = 2, st_tree = [0, 1, - 1],
                  st_data = [Some (0, 0, 0, 0, False, False), Some (1, 1, 1, 1, True, True)],
                  st_idx = 0, st_full = True\<rparr>\<rparr>)"
    by (simp add: PrioritizedReplayMemory_add_def SumTree_add_def SumTree_update_def
        SumTree_propagate.simps py_index_def)
  have a2: "PrioritizedReplayMemory_get 1 draw_zero coins_left
      \<lparr>pr_initial_size = 0, pr_max_size = 2, pr_alpha = 1, pr_beta = 1, pr_epsilon = 0,
       pr_tree = \<lparr>st_max_size = 2, st_tree = [0, 1, - 1],
                  st_data = [Some (0::nat, 0::nat, 0, 0, False, False),
                             Some (1, 1, 1, 1, True, True)],
                  st_idx = 0, st_full = True\<rparr>\<rparr>
     = Some (Inr ([0], [0], [0], [0], [False], [False], [1], [NaN]))"
    by (simp add: PrioritizedReplayMemory_get_def SumTree_total_p_def SumTree_get_def
        SumTree_retrieve.simps py_index_def SumTree_size_def draw_zero_def coins_left_def
        is_weight_def raw_values f64_max_def
        tr_state_def tr_action_def tr_reward_def tr_next_state_def tr_absorbing_def tr_last_def)
  have r0: "f64_round 0 = Fin 0" by (simp add: f64_round_def)
  have u2: "[0..<2] = [0, 1]" by (simp add: numeral_2_eq_2)
  have b1: "SumTreeF_add [(0::nat, 0::nat, 0::real, 0::nat, False, False), (1, 1, 1, 1, True, True)]
        [Fin p_tiny, Fin 1]
        \<lparr>ft_max_size = 2, ft_tree = [Fin 0, Fin 0, Fin 0], ft_data = [None, None],
         ft_idx = 0, ft_full = False\<rparr>
     = Some (Inr \<lparr>ft_max_size = 2, ft_tree = [Fin 1, Fin p_tiny, Fin 1],
                  ft_data = [Some (0, 0, 0, 0, False, False), Some (1, 1, 1, 1, True, True)],
                  ft_idx = 0, ft_full = True\<rparr>)"
    by (simp add: SumTreeF_add_def SumTreeF_update_def SumTreeF_propagate.simps py_index_def
        f64_sub_def f64_round_tiny f64_round_small_values r0)
  have b2: "PrioritizedReplayMemory_get 2 draw_zero coins_left
      \<lparr>pr_initial_size = 0, pr_max_size = 2, pr_alpha = 1, pr_beta = 1, pr_epsilon = 0,
       pr_tree = \<lparr>st_max_size = 2, st_tree = [1, p_tiny, 1],
                  st_data = [Some (0::nat, 0::nat, 0, 0, False, False),
                             Some (1, 1, 1, 1, True, True)],
                  st_idx = 0, st_full = True\<rparr>\<rparr>
     = Some (Inr ([0, 1], [0, 1], [0, 1], [0, 1], [False, True], [False, True], [1, 2],
                  [NaN, Fin 0]))"
    using tiny_facts
    by (simp add: PrioritizedReplayMemory_get_def SumTree_total_p_def SumTree_get_def
        SumTree_retrieve.simps py_index_def SumTree_size_def draw_zero_def coins_left_def
        is_weight_def raw_values f64_max_def u2
        tr_state_def tr_action_def tr_reward_def tr_next_state_def tr_absorbing_def tr_last_def)
  have c2: "PrioritizedReplayMemory_get 1 draw_zero coins_left
      \<lparr>pr_initial_size = 0, pr_max_size = 2, pr_alpha = 1, pr_beta = - 2, pr_epsilon = 0,
       pr_tree = \<lparr>st_max_size = 2, st_tree = [1, p_tiny, 1],
                  st_data = [Some (0::nat, 0::nat, 0, 0, False, False),
                             Some (1, 1, 1, 1, True, True)],
                  st_idx = 0, st_full = True\<rparr>\<rparr>
     = Some (Inr ([0], [0], [0], [0], [False], [False], [1], [NaN]))"
    using tiny_facts
    by (simp add: PrioritizedReplayMemory_get_def SumTree_total_p_def SumTree_get_def
        SumTree_retrieve.simps py_index_def SumTree_size_def draw_zero_def coins_left_def
        is_weight_def raw_values f64_max_def
        tr_state_def tr_action_def tr_reward_def tr_next_state_def tr_absorbing_def tr_last_def)
  have "p_tiny = 2 powi (- 1060)" by (rule p_tiny_def)
  with a1 a2 b1 b2 c2 f64_round_tiny(1) tiny_facts(1) show ?thesis by simp
qed

subsection \<open>\<open>ReplayMemory\<close>: the ring\<close>

lemma ring_ok_init: "ring_ok n f [] (replicate n None)"
  by (simp add: ring_ok_def)

lemma mod_window_neq:
  fixes p k n :: nat
  assumes "p < k" "k < p + n"
  shows "p mod n \<noteq> k mod n"
proof
  assume e: "p mod n = k mod n"
  from assms have n: "0 < n" by simp
  from assms(1) have "p \<le> k" by simp
  from mod_eq_dvd_iff_nat [OF this, of n] e have "n dvd k - p" by simp
  moreover from assms have "0 < k - p" "k - p < n" by simp_all
  ultimately show False by (auto dest: dvd_imp_le)
qed

lemma ring_ok_write:
  assumes n: "0 < n" and ok: "ring_ok n f xs S"
  shows "ring_ok n f (xs @ [x]) (S[length xs mod n := Some (f x)])"
  unfolding ring_ok_def
proof (intro conjI allI impI)
  from ok show "length (S[length xs mod n := Some (f x)]) = n" by (simp add: ring_ok_def)
next
  fix p assume p: "p < length (xs @ [x])" "length (xs @ [x]) \<le> p + n"
  from ok have len: "length S = n" by (simp add: ring_ok_def)
  show "S[length xs mod n := Some (f x)] ! (p mod n) = Some (f ((xs @ [x]) ! p))"
  proof (cases "p = length xs")
    case True
    with len n show ?thesis by simp
  next
    case False
    with p have pl: "p < length xs" "length xs < p + n" by simp_all
    from mod_window_neq [OF pl] have ne: "length xs mod n \<noteq> p mod n" by simp
    from pl have "length xs \<le> p + n" by simp
    with ok pl(1) have "S ! (p mod n) = Some (f (xs ! p))" by (simp add: ring_ok_def)
    with ne pl(1) show ?thesis by (simp add: nth_append)
  qed
next
  fix j assume j: "j < n" "length (xs @ [x]) \<le> j"
  then have "length xs < j" by simp
  with j(1) have "length xs mod n \<noteq> j" by simp
  moreover from ok j \<open>length xs < j\<close> have "S ! j = None" by (simp add: ring_ok_def)
  ultimately show "S[length xs mod n := Some (f x)] ! j = None" by simp
qed

lemma ring_ok_rotate:
  assumes n: "0 < n" and ok: "ring_ok n f xs S" and full: "n \<le> length xs"
  shows "rotate (length xs mod n) S = map (\<lambda>x. Some (f x)) (most_recent n xs)"
proof (rule nth_equalityI)
  from ok full show "length (rotate (length xs mod n) S)
      = length (map (\<lambda>x. Some (f x)) (most_recent n xs))"
    by (simp add: ring_ok_def most_recent_def)
next
  fix j assume "j < length (rotate (length xs mod n) S)"
  with ok have j: "j < n" and len: "length S = n" by (simp_all add: ring_ok_def)
  define p where "p = length xs - n + j"
  from full j have p: "p < length xs" "length xs \<le> p + n" by (simp_all add: p_def)
  from full have "p + n = length xs + j" by (simp add: p_def)
  then have "(p + n) mod n = (length xs + j) mod n" by simp
  then have pm: "p mod n = (length xs mod n + j) mod n" by (simp add: mod_add_left_eq)
  from ok p have "S ! (p mod n) = Some (f (xs ! p))" by (simp add: ring_ok_def)
  with j len pm have "rotate (length xs mod n) S ! j = Some (f (xs ! p))"
    by (simp add: nth_rotate)
  also from p full j have "\<dots> = map (\<lambda>x. Some (f x)) (most_recent n xs) ! j"
    by (simp add: most_recent_def p_def)
  finally show "rotate (length xs mod n) S ! j = map (\<lambda>x. Some (f x)) (most_recent n xs) ! j" .
qed

lemma ring_ok_prefix:
  assumes ok: "ring_ok n f xs S" and le: "length xs \<le> n"
  shows "S = map (\<lambda>x. Some (f x)) xs @ replicate (n - length xs) None"
proof (rule nth_equalityI)
  from ok le show "length S = length (map (\<lambda>x. Some (f x)) xs @ replicate (n - length xs) None)"
    by (simp add: ring_ok_def)
next
  fix j assume "j < length S"
  with ok have j: "j < n" by (simp add: ring_ok_def)
  show "S ! j = (map (\<lambda>x. Some (f x)) xs @ replicate (n - length xs) None) ! j"
  proof (cases "j < length xs")
    case True
    with le j have "length xs \<le> j + n" "j mod n = j" by simp_all
    with ok True have "S ! j = Some (f (xs ! j))" by (auto simp: ring_ok_def)
    with True show ?thesis by (simp add: nth_append)
  next
    case False
    with ok j have "S ! j = None" by (simp add: ring_ok_def)
    with False j show ?thesis by (simp add: nth_append)
  qed
qed

lemma py_setitem_nat: "i < length xs \<Longrightarrow> py_setitem xs (int i) v = Inr (xs[i := v])"
  by (simp add: py_setitem_def py_index_def)

lemma ring_ok_length: "ring_ok n f xs S \<Longrightarrow> length S = n"
  by (simp add: ring_ok_def)

lemma add_one_inv:
  assumes n: "0 < n" and inv: "rm_inv n xs m"
  shows "\<exists>m'. ReplayMemory_add (x # dataset) m = ReplayMemory_add dataset m'
     \<and> rm_inv n (xs @ [x]) m'"
proof -
  let ?k = "length xs mod n"
  from inv have f: "rm_max_size m = n" "rm_idx m = ?k" "rm_full m = (n \<le> length xs)"
    and ok: "ring_ok n tr_state xs (rm_states m)" "ring_ok n tr_action xs (rm_actions m)"
      "ring_ok n tr_reward xs (rm_rewards m)" "ring_ok n tr_next_state xs (rm_next_states m)"
      "ring_ok n tr_absorbing xs (rm_absorbing m)" "ring_ok n tr_last xs (rm_last m)"
    by (simp_all add: rm_inv_def)
  from n have k: "?k < n" by simp
  note len = ok [THEN ring_ok_length]
  define m1 where "m1 = m\<lparr>rm_states := (rm_states m)[?k := Some (tr_state x)],
      rm_actions := (rm_actions m)[?k := Some (tr_action x)],
      rm_rewards := (rm_rewards m)[?k := Some (tr_reward x)],
      rm_next_states := (rm_next_states m)[?k := Some (tr_next_state x)],
      rm_absorbing := (rm_absorbing m)[?k := Some (tr_absorbing x)],
      rm_last := (rm_last m)[?k := Some (tr_last x)],
      rm_idx := ?k + 1\<rparr>"
  define m2 where "m2 = (if rm_idx m1 = rm_max_size m1 then m1\<lparr>rm_full := True, rm_idx := 0\<rparr>
                 else m1)"
  have run: "ReplayMemory_add (x # dataset) m = ReplayMemory_add dataset m2"
    using k len f(2) by (simp add: py_setitem_nat m1_def m2_def Let_def)
  have idx: "rm_idx m2 = length (xs @ [x]) mod n"
    using n f by (auto simp: m2_def m1_def mod_Suc)
  have full: "rm_full m2 = (n \<le> length (xs @ [x]))"
  proof (cases "?k + 1 = n")
    case True
    have "?k \<le> length xs" by simp
    with True have "n \<le> length xs + 1" by linarith
    with True f show ?thesis by (simp add: m2_def m1_def)
  next
    case False
    have "length xs + 1 \<noteq> n"
    proof
      assume e: "length xs + 1 = n"
      then have "length xs mod n = length xs" by simp
      with e False show False by simp
    qed
    then have "(n \<le> length xs + 1) = (n \<le> length xs)" by auto
    with False f show ?thesis by (simp add: m2_def m1_def)
  qed
  have "rm_inv n (xs @ [x]) m2"
    unfolding rm_inv_def
    using idx full f(1) ok [THEN ring_ok_write [OF n], of x]
    by (simp add: m2_def m1_def)
  with run show ?thesis by blast
qed

lemma add_inv:
  assumes n: "0 < n"
  shows "rm_inv n xs m \<Longrightarrow> \<exists>m'. ReplayMemory_add dataset m = Inr m' \<and> rm_inv n (xs @ dataset) m'"
proof (induction dataset arbitrary: xs m)
  case Nil
  then show ?case by simp
next
  case (Cons x dataset)
  from add_one_inv [OF n Cons.prems, of x dataset]
  obtain m1 where m1: "ReplayMemory_add (x # dataset) m = ReplayMemory_add dataset m1"
    "rm_inv n (xs @ [x]) m1" by blast
  from Cons.IH [OF m1(2)] m1(1) show ?case by simp
qed

lemma add_all_inv:
  assumes n: "0 < n"
  shows "rm_inv n xs m \<Longrightarrow>
    \<exists>m'. ReplayMemory_add_all datasets m = Inr m' \<and> rm_inv n (xs @ concat datasets) m'"
proof (induction datasets arbitrary: xs m)
  case Nil
  then show ?case by simp
next
  case (Cons dataset datasets)
  from add_inv [OF n Cons.prems, of dataset]
  obtain m1 where m1: "ReplayMemory_add dataset m = Inr m1" "rm_inv n (xs @ dataset) m1" by blast
  from Cons.IH [OF m1(2)] m1(1) show ?case by simp
qed

lemma init_rm_inv: "0 < n \<Longrightarrow> rm_inv n [] (ReplayMemory_init initial_size n)"
  by (simp add: rm_inv_def ReplayMemory_init_def ReplayMemory_reset_def ring_ok_init)

text \<open>
  Claim C2 (ring invariant). For a \<open>ReplayMemory\<close> of capacity \<open>max_size \<ge> 1\<close> and every
  sequence of \<open>add\<close> calls: every call returns, \<open>size\<close> is the minimum of the number of
  transitions inserted and \<open>max_size\<close>, and once at least \<open>max_size\<close> transitions were
  inserted each of the six parallel arrays, read from the write cursor on, holds the
  corresponding field of the \<open>max_size\<close> most recent transitions, oldest first (the oldest
  one is at the cursor and is the next to be overwritten).
\<close>

theorem ring_invariant:
  assumes "0 < max_size"
  shows "\<exists>m. ReplayMemory_add_all datasets (ReplayMemory_init initial_size max_size) = Inr m
     \<and> ReplayMemory_size m = min (length (concat datasets)) max_size
     \<and> (max_size \<le> length (concat datasets) \<longrightarrow>
          rotate (rm_idx m) (rm_states m)
            = map (\<lambda>x. Some (tr_state x)) (most_recent max_size (concat datasets))
        \<and> rotate (rm_idx m) (rm_actions m)
            = map (\<lambda>x. Some (tr_action x)) (most_recent max_size (concat datasets))
        \<and> rotate (rm_idx m) (rm_rewards m)
            = map (\<lambda>x. Some (tr_reward x)) (most_recent max_size (concat datasets))
        \<and> rotate (rm_idx m) (rm_next_states m)
            = map (\<lambda>x. Some (tr_next_state x)) (most_recent max_size (concat datasets))
        \<and> rotate (rm_idx m) (rm_absorbing m)
            = map (\<lambda>x. Some (tr_absorbing x)) (most_recent max_size (concat datasets))
        \<and> rotate (rm_idx m) (rm_last m)
            = map (\<lambda>x. Some (tr_last x)) (most_recent max_size (concat datasets)))"
proof -
  let ?xs = "concat datasets"
  from add_all_inv [OF assms init_rm_inv [OF assms], of datasets initial_size]
  obtain m where m: "ReplayMemory_add_all datasets (ReplayMemory_init initial_size max_size) = Inr m"
    "rm_inv max_size ?xs m" by auto
  from m(2) have f: "rm_max_size m = max_size" "rm_idx m = length ?xs mod max_size"
      "rm_full m = (max_size \<le> length ?xs)"
    and ok: "ring_ok max_size tr_state ?xs (rm_states m)"
      "ring_ok max_size tr_action ?xs (rm_actions m)"
      "ring_ok max_size tr_reward ?xs (rm_rewards m)"
      "ring_ok max_size tr_next_state ?xs (rm_next_states m)"
      "ring_ok max_size tr_absorbing ?xs (rm_absorbing m)"
      "ring_ok max_size tr_last ?xs (rm_last m)"
    by (simp_all add: rm_inv_def)
  from f have sz: "ReplayMemory_size m = min (length ?xs) max_size"
    by (auto simp: ReplayMemory_size_def)
  have rot: "max_size \<le> length ?xs \<longrightarrow>
          rotate (rm_idx m) (rm_states m) = map (\<lambda>x. Some (tr_state x)) (most_recent max_size ?xs)
        \<and> rotate (rm_idx m) (rm_actions m) = map (\<lambda>x. Some (tr_action x)) (most_recent max_size ?xs)
        \<and> rotate (rm_idx m) (rm_rewards m) = map (\<lambda>x. Some (tr_reward x)) (most_recent max_size ?xs)
        \<and> rotate (rm_idx m) (rm_next_states m)
            = map (\<lambda>x. Some (tr_next_state x)) (most_recent max_size ?xs)
        \<and> rotate (rm_idx m) (rm_absorbing m)
            = map (\<lambda>x. Some (tr_absorbing x)) (most_recent max_size ?xs)
        \<and> rotate (rm_idx m) (rm_last m) = map (\<lambda>x. Some (tr_last x)) (most_recent max_size ?xs)"
    unfolding f(2) using ok [THEN ring_ok_rotate [OF assms]] by blast
  from m(1) sz rot show ?thesis by blast
qed

text \<open>
  Capacity 2 and three adds of one, one and two transitions: the arrays hold the last two
  transitions, and the cursor is back at slot 0.
\<close>

theorem ring_invariant_witness:
  "\<exists>m. ReplayMemory_add_all
          [[(0::nat, 0::nat, 0, 1, False, False)], [(1, 0, 0, 2, False, False)],
           [(2, 1, 1, 3, True, False), (3, 1, 0, 4, False, True)]]
          (ReplayMemory_init 0 2) = Inr m
     \<and> ReplayMemory_size m = 2
     \<and> rotate (rm_idx m) (rm_states m) = [Some 2, Some 3]
     \<and> rotate (rm_idx m) (rm_actions m) = [Some 1, Some 1]
     \<and> rotate (rm_idx m) (rm_rewards m) = [Some 1, Some 0]
     \<and> rotate (rm_idx m) (rm_next_states m) = [Some 3, Some 4]
     \<and> rotate (rm_idx m) (rm_absorbing m) = [Some True, Some False]
     \<and> rotate (rm_idx m) (rm_last m) = [Some False, Some True]"
proof -
  let ?dss = "[[(0, 0, 0, 1, False, False)], [(1, 0, 0, 2, False, False)],
           [(2, 1, 1, 3, True, False), (3, 1, 0, 4, False, True)]]
           :: (nat, nat) transition list list"
  have n: "(0::nat) < 2" by simp
  from ring_invariant [OF n, of ?dss 0]
  obtain m where all: "ReplayMemory_add_all ?dss (ReplayMemory_init 0 2) = Inr m
     \<and> ReplayMemory_size m = min (length (concat ?dss)) 2
     \<and> (2 \<le> length (concat ?dss) \<longrightarrow>
          rotate (rm_idx m) (rm_states m)
            = map (\<lambda>x. Some (tr_state x)) (most_recent 2 (concat ?dss))
        \<and> rotate (rm_idx m) (rm_actions m)
            = map (\<lambda>x. Some (tr_action x)) (most_recent 2 (concat ?dss))
        \<and> rotate (rm_idx m) (rm_rewards m)
            = map (\<lambda>x. Some (tr_reward x)) (most_recent 2 (concat ?dss))
        \<and> rotate (rm_idx m) (rm_next_states m)
            = map (\<lambda>x. Some (tr_next_state x)) (most_recent 2 (concat ?dss))
        \<and> rotate (rm_idx m) (rm_absorbing m)
            = map (\<lambda>x. Some (tr_absorbing x)) (most_recent 2 (concat ?dss))
        \<and> rotate (rm_idx m) (rm_last m)
            = map (\<lambda>x. Some (tr_last x)) (most_recent 2 (concat ?dss)))" ..
  from all have m: "ReplayMemory_add_all ?dss (ReplayMemory_init 0 2) = Inr m"
    by (rule conjunct1)
  from all have "ReplayMemory_size m = min (length (concat ?dss)) 2"
    by (rule conjunct2 [THEN conjunct1])
  then have sz: "ReplayMemory_size m = 2" by simp
  have mr: "most_recent 2 (concat ?dss) = [(2, 1, 1, 3, True, False), (3, 1, 0, 4, False, True)]"
    by (simp add: most_recent_def)
  have full: "2 \<le> length (concat ?dss)" by simp
  from all [THEN conjunct2, THEN conjunct2, THEN mp, OF full]
  have "rotate (rm_idx m) (rm_states m) = [Some 2, Some 3]
     \<and> rotate (rm_idx m) (rm_actions m) = [Some 1, Some 1]
     \<and> rotate (rm_idx m) (rm_rewards m) = [Some 1, Some 0]
     \<and> rotate (rm_idx m) (rm_next_states m) = [Some 3, Some 4]
     \<and> rotate (rm_idx m) (rm_absorbing m) = [Some True, Some False]
     \<and> rotate (rm_idx m) (rm_last m) = [Some False, Some True]"
    unfolding mr
    by (simp add: tr_state_def tr_action_def tr_reward_def tr_next_state_def
        tr_absorbing_def tr_last_def)
  with m sz show ?thesis by (intro exI [of _ m] conjI) (elim conjE, assumption)+
qed

subsection \<open>\<open>SequentialReplayMemory._split_dataset\<close>\<close>

lemma zip_tl_last:
  "xs \<noteq> [] \<Longrightarrow> zip xs (tl xs) \<noteq> [] \<Longrightarrow> snd (last (zip xs (tl xs))) = last xs"
proof (induction xs)
  case Nil
  then show ?case by simp
next
  case (Cons x xs)
  show ?case
  proof (cases xs)
    case Nil
    with Cons.prems show ?thesis by simp
  next
    case (Cons y ys)
    note c = this
    show ?thesis
    proof (cases ys)
      case Nil
      with c show ?thesis by simp
    next
      case (Cons z zs)
      with c Cons.IH show ?thesis by simp
    qed
  qed
qed

lemma zip_tl_snoc:
  "xs \<noteq> [] \<Longrightarrow> zip (xs @ [a]) (tl (xs @ [a])) = zip xs (tl xs) @ [(last xs, a)]"
proof (induction xs)
  case Nil
  then show ?case by simp
next
  case (Cons x xs)
  then show ?case by (cases xs) simp_all
qed

lemma split_dataset_eq:
  assumes "dataset \<noteq> []"
  shows "SequentialReplayMemory_split_dataset dataset
     = Inr (split_episodes dataset, split_rest dataset)"
proof -
  let ?args = "split_args dataset"
  have ne: "?args \<noteq> []" by (simp add: split_args_def)
  have key: "(if zip ?args (tl ?args) = [] then 0 else snd (last (zip ?args (tl ?args))))
      = last ?args"
  proof (cases "zip ?args (tl ?args) = []")
    case True
    then have "tl ?args = []" using ne by (cases ?args) auto
    then have "?args = [0]" by (simp add: split_args_def)
    with True show ?thesis by simp
  next
    case False
    with zip_tl_last [OF ne False] show ?thesis by simp
  qed
  show ?thesis
    unfolding SequentialReplayMemory_split_dataset_def Let_def split_episodes_def split_rest_def
      boundary_indices_def [symmetric] split_args_def [symmetric]
    by (simp only: key assms if_False)
qed

lemma boundary_indices_snoc:
  "boundary_indices (ds @ [x])
     = boundary_indices ds @ (if tr_absorbing x then [length ds] else [])"
proof -
  have "filter (\<lambda>i. tr_absorbing ((ds @ [x]) ! i)) [0..<length ds]
      = filter (\<lambda>i. tr_absorbing (ds ! i)) [0..<length ds]"
    by (rule filter_cong) (simp_all add: nth_append)
  then show ?thesis by (simp add: boundary_indices_def)
qed

lemma split_args_bound: "a \<in> set (split_args ds) \<Longrightarrow> a \<le> length ds"
  by (auto simp: split_args_def boundary_indices_def)

lemma split_args_last_bound: "last (split_args ds) \<le> length ds"
proof -
  have "split_args ds \<noteq> []" by (simp add: split_args_def)
  then have "last (split_args ds) \<in> set (split_args ds)" by (rule last_in_set)
  then show ?thesis by (rule split_args_bound)
qed

lemma py_slice_snoc: "e \<le> length ds \<Longrightarrow> py_slice (ds @ [x]) s e = py_slice ds s e"
  by (simp add: py_slice_def)

lemma slices_snoc:
  "map (\<lambda>(s, e). py_slice (ds @ [x]) s e) (zip (split_args ds) (tl (split_args ds)))
     = split_episodes ds"
  unfolding split_episodes_def
proof (rule map_cong [OF refl])
  fix pr assume pr: "pr \<in> set (zip (split_args ds) (tl (split_args ds)))"
  obtain a b where ab: "pr = (a, b)" by (cases pr)
  with pr have "b \<in> set (tl (split_args ds))" by (auto dest: set_zip_rightD)
  then have "b \<in> set (split_args ds)" by (simp add: split_args_def)
  then have "b \<le> length ds" by (rule split_args_bound)
  then show "(case pr of (s, e) \<Rightarrow> py_slice (ds @ [x]) s e)
      = (case pr of (s, e) \<Rightarrow> py_slice ds s e)"
    by (simp add: ab py_slice_snoc)
qed

lemma split_snoc_flag:
  assumes "tr_absorbing x"
  shows "split_episodes (ds @ [x]) = split_episodes ds @ [split_rest ds @ [x]]"
    and "split_rest (ds @ [x]) = []"
proof -
  have ne: "split_args ds \<noteq> []" by (simp add: split_args_def)
  from assms have args: "split_args (ds @ [x]) = split_args ds @ [length ds + 1]"
    by (simp add: split_args_def boundary_indices_snoc)
  have "py_slice (ds @ [x]) (last (split_args ds)) (length ds + 1) = split_rest ds @ [x]"
    using split_args_last_bound [of ds] by (simp add: py_slice_def split_rest_def)
  then show "split_episodes (ds @ [x]) = split_episodes ds @ [split_rest ds @ [x]]"
    using slices_snoc [of ds x]
    by (simp add: split_episodes_def [of "ds @ [x]"] args zip_tl_snoc [OF ne])
  show "split_rest (ds @ [x]) = []"
    by (simp add: split_rest_def args py_slice_def)
qed

lemma split_snoc_noflag:
  assumes "\<not> tr_absorbing x"
  shows "split_episodes (ds @ [x]) = split_episodes ds"
    and "split_rest (ds @ [x]) = split_rest ds @ [x]"
proof -
  from assms have args: "split_args (ds @ [x]) = split_args ds"
    by (simp add: split_args_def boundary_indices_snoc)
  show "split_episodes (ds @ [x]) = split_episodes ds"
    using slices_snoc [of ds x] by (simp add: split_episodes_def [of "ds @ [x]"] args)
  show "split_rest (ds @ [x]) = split_rest ds @ [x]"
    using split_args_last_bound [of ds] by (simp add: split_rest_def args py_slice_def)
qed

lemma split_sound:
  "concat (split_episodes ds) @ split_rest ds = ds
   \<and> list_all complete_episode (split_episodes ds)
   \<and> list_all (\<lambda>x. \<not> tr_absorbing x) (split_rest ds)"
proof (induction ds rule: rev_induct)
  case Nil
  show ?case
    by (simp add: split_episodes_def split_rest_def split_args_def boundary_indices_def
        py_slice_def)
next
  case (snoc x ds)
  show ?case
  proof (cases "tr_absorbing x")
    case True
    from snoc have "complete_episode (split_rest ds @ [x])"
      using True by (simp add: complete_episode_def)
    with snoc show ?thesis by (simp add: split_snoc_flag [OF True])
  next
    case False
    with snoc show ?thesis by (simp add: split_snoc_noflag [OF False])
  qed
qed

subsection \<open>\<open>SequentialReplayMemory.add\<close>: storing and evicting\<close>

lemma same_params_refl: "same_params m m"
  by (simp add: same_params_def)

lemma same_params_trans: "same_params m m1 \<Longrightarrow> same_params m1 m2 \<Longrightarrow> same_params m m2"
  by (simp add: same_params_def)

lemma map_length_Cons:
  assumes "map length xs = map length (y # ys)"
  obtains x xs' where "xs = x # xs'" "length x = length y" "map length xs' = map length ys"
  using assms by (cases xs) auto

lemma evict_ok:
  "sq_consistent m \<Longrightarrow> sq_states m \<noteq> [] \<Longrightarrow>
   \<exists>m' j. SequentialReplayMemory_evict m = Inr m' \<and> sq_inv m'
     \<and> sq_states m' = drop j (sq_states m) \<and> same_params m m'"
proof (induction "length (sq_states m)" arbitrary: m rule: less_induct)
  case less
  show ?case
  proof (cases "sq_size m > sq_max_size m")
    case False
    then have "SequentialReplayMemory_evict m = Inr m"
      by (subst SequentialReplayMemory_evict.simps) simp
    moreover from False less.prems(1) have "sq_inv m" by (simp add: sq_inv_def)
    moreover have "sq_states m = drop 0 (sq_states m)" by simp
    ultimately show ?thesis using same_params_refl by blast
  next
    case True
    from less.prems(2) obtain s states where st: "sq_states m = s # states"
      by (cases "sq_states m") auto
    from less.prems(1) have c:
      "list_all (storable (sq_unroll_steps m) (sq_max_size m)) (sq_states m)"
      "sq_lengths m = map (\<lambda>ep. int (length ep)) (sq_states m)"
      "map length (sq_actions m) = map length (sq_states m)"
      "map length (sq_rewards m) = map length (sq_states m)"
      "map length (sq_next_states m) = map length (sq_states m)"
      "map length (sq_absorbing m) = map length (sq_states m)"
      "map length (sq_last m) = map length (sq_states m)"
      "sq_size m = sum_list (sq_lengths m)"
      by (simp_all add: sq_consistent_def)
    from c(3) st obtain a actions where a: "sq_actions m = a # actions"
      "map length actions = map length states" by (auto elim: map_length_Cons)
    from c(4) st obtain r rewards where r: "sq_rewards m = r # rewards"
      "map length rewards = map length states" by (auto elim: map_length_Cons)
    from c(5) st obtain ss next_states where ss: "sq_next_states m = ss # next_states"
      "map length next_states = map length states" by (auto elim: map_length_Cons)
    from c(6) st obtain ab absorbing where ab: "sq_absorbing m = ab # absorbing"
      "map length absorbing = map length states" by (auto elim: map_length_Cons)
    from c(7) st obtain l lasts where l: "sq_last m = l # lasts"
      "map length lasts = map length states" by (auto elim: map_length_Cons)
    from c(2) st have le: "sq_lengths m = int (length s) # map (\<lambda>ep. int (length ep)) states"
      by simp
    define m1 where "m1 = m\<lparr>sq_size := sq_size m - int (length s), sq_states := states,
                sq_actions := actions, sq_rewards := rewards, sq_next_states := next_states,
                sq_absorbing := absorbing, sq_last := lasts,
                sq_lengths := map (\<lambda>ep. int (length ep)) states\<rparr>"
    have run: "SequentialReplayMemory_evict m = SequentialReplayMemory_evict m1"
      using True st a r ss ab l le
      by (subst SequentialReplayMemory_evict.simps) (simp add: m1_def)
    have ne: "states \<noteq> []"
    proof
      assume "states = []"
      with c(8) le have "sq_size m = int (length s)" by simp
      moreover from c(1) st have "int (length s) < sq_max_size m" by (simp add: storable_def)
      ultimately show False using True by simp
    qed
    from c(1,8) st le a r ss ab l have c1: "sq_consistent m1"
      by (simp add: sq_consistent_def m1_def)
    have "length (sq_states m1) < length (sq_states m)" by (simp add: m1_def st)
    from less.hyps [OF this c1] ne
    obtain m' j where m': "SequentialReplayMemory_evict m1 = Inr m'" "sq_inv m'"
      "sq_states m' = drop j (sq_states m1)" "same_params m1 m'"
      by (auto simp: m1_def)
    from m'(3) st have "sq_states m' = drop (Suc j) (sq_states m)" by (simp add: m1_def)
    moreover from m'(4) have "same_params m m'" by (simp add: same_params_def m1_def)
    ultimately show ?thesis using run m'(1,2) by auto
  qed
qed

lemma add_episodes_ok:
  "sq_inv m \<Longrightarrow>
   \<exists>m'. SequentialReplayMemory_add_episodes episodes added m
          = Inr (m', added + length (filter (storable (sq_unroll_steps m) (sq_max_size m)) episodes))
     \<and> sq_inv m' \<and> same_params m m'
     \<and> suffix (sq_states m')
          (sq_states m @ map (map tr_state)
             (filter (storable (sq_unroll_steps m) (sq_max_size m)) episodes))"
proof (induction episodes arbitrary: m added)
  case Nil
  then show ?case by (simp add: same_params_refl)
next
  case (Cons episode episodes)
  let ?ok = "storable (sq_unroll_steps m) (sq_max_size m)"
  show ?case
  proof (cases "?ok episode")
    case False
    then have "SequentialReplayMemory_add_episodes (episode # episodes) added m
        = SequentialReplayMemory_add_episodes episodes added m"
      by (auto simp: storable_def)
    with Cons.IH [OF Cons.prems, of added] False show ?thesis by simp
  next
    case True
    define ma where "ma = m\<lparr>sq_states := sq_states m @ [map tr_state episode],
                   sq_actions := sq_actions m @ [map tr_action episode],
                   sq_rewards := sq_rewards m @ [map tr_reward episode],
                   sq_next_states := sq_next_states m @ [map tr_next_state episode],
                   sq_absorbing := sq_absorbing m @ [map tr_absorbing episode],
                   sq_last := sq_last m @ [map tr_last episode],
                   sq_size := sq_size m + int (length episode),
                   sq_lengths := sq_lengths m @ [int (length episode)]\<rparr>"
    from Cons.prems True have ca: "sq_consistent ma"
      by (simp add: sq_inv_def sq_consistent_def ma_def storable_def)
    have nea: "sq_states ma \<noteq> []" by (simp add: ma_def)
    from evict_ok [OF ca nea]
    obtain m1 j where m1: "SequentialReplayMemory_evict ma = Inr m1" "sq_inv m1"
      "sq_states m1 = drop j (sq_states ma)" "same_params ma m1" by blast
    from m1(4) have sp: "same_params m m1" by (simp add: same_params_def ma_def)
    then have par: "sq_unroll_steps m1 = sq_unroll_steps m" "sq_max_size m1 = sq_max_size m"
      by (simp_all add: same_params_def)
    have run: "SequentialReplayMemory_add_episodes (episode # episodes) added m
        = SequentialReplayMemory_add_episodes episodes (added + 1) m1"
      using True m1(1) by (simp add: storable_def ma_def)
    from Cons.IH [OF m1(2), of "added + 1"] par
    obtain m' where m': "SequentialReplayMemory_add_episodes episodes (added + 1) m1
          = Inr (m', added + 1 + length (filter ?ok episodes))"
      "sq_inv m'" "same_params m1 m'"
      "suffix (sq_states m') (sq_states m1 @ map (map tr_state) (filter ?ok episodes))"
      by auto
    let ?rest = "map (map tr_state) (filter ?ok episodes)"
    from m'(4) obtain zs where zs: "sq_states m1 @ ?rest = zs @ sq_states m'"
      by (auto simp: suffix_def)
    have "sq_states ma @ ?rest = take j (sq_states ma) @ (sq_states m1 @ ?rest)"
      unfolding m1(3) by simp
    with zs have "sq_states ma @ ?rest = (take j (sq_states ma) @ zs) @ sq_states m'" by simp
    then have "suffix (sq_states m') (sq_states ma @ ?rest)" unfolding suffix_def by blast
    then have "suffix (sq_states m')
          (sq_states m @ map (map tr_state) (filter ?ok (episode # episodes)))"
      using True by (simp add: ma_def)
    moreover from sp m'(3) have "same_params m m'" by (rule same_params_trans)
    ultimately show ?thesis using run m'(1,2) True by simp
  qed
qed

lemma init_sq_inv:
  "0 \<le> max_size \<Longrightarrow> sq_inv (SequentialReplayMemory_init initial_size max_size unroll_steps)"
  by (simp add: sq_inv_def sq_consistent_def SequentialReplayMemory_init_def)

lemma reset_sq_inv:
  assumes "sq_inv m"
  shows "sq_inv (SequentialReplayMemory_reset m)"
proof -
  from assms have "sq_size m = sum_list (map (\<lambda>ep. int (length ep)) (sq_states m))"
    "sq_size m \<le> sq_max_size m"
    by (auto simp: sq_inv_def sq_consistent_def)
  moreover have "0 \<le> sum_list (map (\<lambda>ep. int (length ep)) (sq_states m))"
    by (rule sum_list_nonneg) auto
  ultimately have "0 \<le> sq_max_size m" by simp
  then show ?thesis
    by (simp add: sq_inv_def sq_consistent_def SequentialReplayMemory_reset_def)
qed

lemma add_ok:
  assumes inv: "sq_inv m" and ne: "sq_unfinished_episode m @ dataset \<noteq> []"
  defines "episodes \<equiv> split_episodes (sq_unfinished_episode m @ dataset)"
    and "unfinished \<equiv> split_rest (sq_unfinished_episode m @ dataset)"
  shows "\<exists>m'. SequentialReplayMemory_add dataset m
          = Inr (m', length (filter (storable (sq_unroll_steps m) (sq_max_size m)) episodes))
     \<and> sq_inv m' \<and> sq_unfinished_episode m' = unfinished
     \<and> suffix (sq_states m')
          (sq_states m @ map (map tr_state)
             (filter (storable (sq_unroll_steps m) (sq_max_size m)) episodes))"
proof -
  define m0 where "m0 = m\<lparr>sq_unfinished_episode := unfinished\<rparr>"
  from inv have inv0: "sq_inv m0" by (auto simp: m0_def sq_inv_def sq_consistent_def)
  have run: "SequentialReplayMemory_add dataset m
      = SequentialReplayMemory_add_episodes episodes 0 m0"
    by (simp add: SequentialReplayMemory_add_def split_dataset_eq [OF ne]
        episodes_def unfinished_def m0_def)
  from add_episodes_ok [OF inv0, of episodes 0]
  obtain m' where m': "SequentialReplayMemory_add_episodes episodes 0 m0
          = Inr (m', length (filter (storable (sq_unroll_steps m) (sq_max_size m)) episodes))"
     "sq_inv m'" "same_params m0 m'"
     "suffix (sq_states m')
          (sq_states m @ map (map tr_state)
             (filter (storable (sq_unroll_steps m) (sq_max_size m)) episodes))"
    by (auto simp: m0_def)
  from m'(3) have "sq_unfinished_episode m' = unfinished" by (simp add: same_params_def m0_def)
  with run m' show ?thesis by auto
qed

lemma evict_unfinished:
  "SequentialReplayMemory_evict m = Inr m' \<Longrightarrow>
     sq_unfinished_episode m' = sq_unfinished_episode m"
proof (induction m rule: SequentialReplayMemory_evict.induct)
  case (1 m)
  show ?case
  proof (cases "sq_size m > sq_max_size m")
    case False
    with "1.prems" show ?thesis
      by (subst (asm) SequentialReplayMemory_evict.simps) simp
  next
    case True
    from "1.prems" True show ?thesis
      by (subst (asm) SequentialReplayMemory_evict.simps)
         (auto split: list.splits dest!: "1.IH" [OF True, rotated -1])
  qed
qed

lemma add_episodes_unfinished:
  "SequentialReplayMemory_add_episodes episodes added m = Inr (m', k) \<Longrightarrow>
     sq_unfinished_episode m' = sq_unfinished_episode m"
proof (induction episodes arbitrary: added m)
  case Nil
  then show ?case by simp
next
  case (Cons episode episodes)
  then show ?case
    by (fastforce split: if_splits sum.splits dest: evict_unfinished)
qed

text \<open>
  Claim C5 (episode split). \<open>add\<close> splits the carried-over \<open>unfinished_episode\<close> followed by
  the incoming stream: the episodes and the new \<open>unfinished_episode\<close> together are that
  concatenation, every episode ends with a transition whose boundary flag is set and has no
  other such transition, the new \<open>unfinished_episode\<close> has none, and the episodes are what
  \<open>add\<close> then stores or drops. When there is nothing to split (nothing carried over and an
  empty stream) \<open>_split_dataset\<close> raises \<open>IndexError\<close> and the memory is as before.
\<close>

theorem episode_split:
  "(sq_unfinished_episode m @ dataset = [] \<longrightarrow>
      SequentialReplayMemory_add dataset m = Inl IndexError)
   \<and> (sq_unfinished_episode m @ dataset \<noteq> [] \<longrightarrow>
      (\<exists>episodes unfinished.
          SequentialReplayMemory_split_dataset (sq_unfinished_episode m @ dataset)
            = Inr (episodes, unfinished)
        \<and> concat episodes @ unfinished = sq_unfinished_episode m @ dataset
        \<and> list_all complete_episode episodes
        \<and> list_all (\<lambda>x. \<not> tr_absorbing x) unfinished
        \<and> SequentialReplayMemory_add dataset m
            = SequentialReplayMemory_add_episodes episodes 0
                (m\<lparr>sq_unfinished_episode := unfinished\<rparr>)
        \<and> (\<forall>m' added. SequentialReplayMemory_add dataset m = Inr (m', added)
              \<longrightarrow> sq_unfinished_episode m' = unfinished)))"
proof (intro conjI impI)
  assume "sq_unfinished_episode m @ dataset = []"
  then show "SequentialReplayMemory_add dataset m = Inl IndexError"
    by (simp add: SequentialReplayMemory_add_def SequentialReplayMemory_split_dataset_def)
next
  let ?ds = "sq_unfinished_episode m @ dataset"
  assume ne: "?ds \<noteq> []"
  note eq = split_dataset_eq [OF ne]
  have run: "SequentialReplayMemory_add dataset m
        = SequentialReplayMemory_add_episodes (split_episodes ?ds) 0
            (m\<lparr>sq_unfinished_episode := split_rest ?ds\<rparr>)"
    by (simp add: SequentialReplayMemory_add_def eq)
  have "\<forall>m' added. SequentialReplayMemory_add dataset m = Inr (m', added)
          \<longrightarrow> sq_unfinished_episode m' = split_rest ?ds"
    unfolding run by (auto dest: add_episodes_unfinished)
  with eq run split_sound [of ?ds]
  show "\<exists>episodes unfinished.
          SequentialReplayMemory_split_dataset ?ds = Inr (episodes, unfinished)
        \<and> concat episodes @ unfinished = ?ds
        \<and> list_all complete_episode episodes
        \<and> list_all (\<lambda>x. \<not> tr_absorbing x) unfinished
        \<and> SequentialReplayMemory_add dataset m
            = SequentialReplayMemory_add_episodes episodes 0
                (m\<lparr>sq_unfinished_episode := unfinished\<rparr>)
        \<and> (\<forall>m' added. SequentialReplayMemory_add dataset m = Inr (m', added)
              \<longrightarrow> sq_unfinished_episode m' = unfinished)"
    by blast
qed

lemma upt_7: "[0..<7] = [0, 1, 2, 3, 4, 5, 6]"
  by (simp add: upt_rec numeral_eq_Suc)

lemma split_stream7:
  "SequentialReplayMemory_split_dataset stream7
     = Inr ([[(0, 0, 0, 1, False, False), (1, 0, 0, 2, False, False), (2, 0, 0, 3, True, False)],
             [(3, 0, 0, 4, False, False), (4, 0, 0, 5, False, False), (5, 0, 0, 6, True, False)]],
            [(6, 0, 0, 7, False, False)])"
  by (simp add: SequentialReplayMemory_split_dataset_def stream7_def upt_7 tr_absorbing_def
      py_slice_def Let_def)

text \<open>
  The stream of the spec's test: seven transitions, boundary flags at positions 2 and 5,
  nothing carried over. The episodes have lengths 3 and 3 and one transition is left over;
  a memory of capacity 10 stores both episodes.
\<close>

theorem episode_split_witness:
  "sq_unfinished_episode (SequentialReplayMemory_init 0 10 1) @ stream7 \<noteq> []
   \<and> SequentialReplayMemory_add [] (SequentialReplayMemory_init 0 10 1
         :: (nat, nat) SequentialReplayMemory) = Inl IndexError
   \<and> (\<exists>episodes unfinished.
        SequentialReplayMemory_split_dataset stream7 = Inr (episodes, unfinished)
      \<and> map length episodes = [3, 3] \<and> length unfinished = 1
      \<and> concat episodes @ unfinished = stream7
      \<and> list_all complete_episode episodes
      \<and> (\<exists>m'. SequentialReplayMemory_add stream7 (SequentialReplayMemory_init 0 10 1) = Inr (m', 2)
            \<and> sq_lengths m' = [3, 3] \<and> sq_unfinished_episode m' = unfinished))"
proof -
  let ?m = "SequentialReplayMemory_init 0 10 1 :: (nat, nat) SequentialReplayMemory"
  have u: "sq_unfinished_episode ?m = []" by (simp add: SequentialReplayMemory_init_def)
  have ne: "sq_unfinished_episode ?m @ stream7 \<noteq> []" by (simp add: stream7_def)
  from episode_split [of ?m stream7] ne obtain episodes unfinished where
    s: "SequentialReplayMemory_split_dataset (sq_unfinished_episode ?m @ stream7)
        = Inr (episodes, unfinished)"
    and c: "concat episodes @ unfinished = sq_unfinished_episode ?m @ stream7"
      "list_all complete_episode episodes"
    and a: "SequentialReplayMemory_add stream7 ?m
        = SequentialReplayMemory_add_episodes episodes 0 (?m\<lparr>sq_unfinished_episode := unfinished\<rparr>)"
    by blast
  from s have e: "episodes = [[(0, 0, 0, 1, False, False), (1, 0, 0, 2, False, False),
                               (2, 0, 0, 3, True, False)],
             [(3, 0, 0, 4, False, False), (4, 0, 0, 5, False, False), (5, 0, 0, 6, True, False)]]"
    "unfinished = [(6, 0, 0, 7, False, False)]"
    by (simp_all add: u split_stream7)
  have "\<exists>m'. SequentialReplayMemory_add stream7 ?m = Inr (m', 2)
            \<and> sq_lengths m' = [3, 3] \<and> sq_unfinished_episode m' = unfinished"
    unfolding a e
    by (simp add: SequentialReplayMemory_init_def SequentialReplayMemory_evict.simps)
  moreover have "SequentialReplayMemory_add [] ?m = Inl IndexError"
    using episode_split [of ?m "[]"] u by simp
  ultimately show ?thesis using ne s c e(1) u by (simp add: e(2))
qed

text \<open>
  Claim C6 (episodic capacity). The invariant \<open>sq_inv\<close> says: every stored episode has
  \<open>unroll_steps \<le> length < max_size\<close>; \<open>_lengths\<close> lists the lengths of the stored
  episodes, the six lists of episodes have the same shape, \<open>_size\<close> is the sum of the
  lengths, and \<open>_size \<le> max_size\<close>. It holds in a new memory (of capacity at least \<open>0\<close>),
  \<open>reset\<close> keeps it, and every \<open>add\<close> that returns keeps it. After \<open>add\<close> the stored
  episodes are a suffix of the episodes stored before followed by the new episodes of
  storable length: eviction drops whole episodes from the oldest end. \<open>add\<close> returns
  whenever the carried-over transitions and the new ones are not both empty.
\<close>

theorem episodic_capacity:
  "(0 \<le> max_size \<longrightarrow>
      sq_inv (SequentialReplayMemory_init initial_size max_size unroll_steps
                :: ('s, 'a) SequentialReplayMemory))
   \<and> (sq_inv m \<longrightarrow> sq_inv (SequentialReplayMemory_reset m))
   \<and> (sq_inv m \<and> SequentialReplayMemory_add dataset m = Inr (m', added) \<longrightarrow>
        sq_inv m'
        \<and> (\<exists>episodes unfinished.
              SequentialReplayMemory_split_dataset (sq_unfinished_episode m @ dataset)
                = Inr (episodes, unfinished)
            \<and> suffix (sq_states m')
                 (sq_states m @ map (map tr_state)
                    (filter (storable (sq_unroll_steps m) (sq_max_size m)) episodes))
            \<and> added = length (filter (storable (sq_unroll_steps m) (sq_max_size m)) episodes)))
   \<and> (sq_inv m \<and> sq_unfinished_episode m @ dataset \<noteq> [] \<longrightarrow>
        (\<exists>m' added. SequentialReplayMemory_add dataset m = Inr (m', added)))"
proof (intro conjI impI)
  assume "0 \<le> max_size"
  then show "sq_inv (SequentialReplayMemory_init initial_size max_size unroll_steps
                :: ('s, 'a) SequentialReplayMemory)"
    by (rule init_sq_inv)
next
  assume "sq_inv m"
  then show "sq_inv (SequentialReplayMemory_reset m)" by (rule reset_sq_inv)
next
  assume a: "sq_inv m \<and> SequentialReplayMemory_add dataset m = Inr (m', added)"
  have ne: "sq_unfinished_episode m @ dataset \<noteq> []"
  proof
    assume "sq_unfinished_episode m @ dataset = []"
    with a show False
      by (simp add: SequentialReplayMemory_add_def SequentialReplayMemory_split_dataset_def)
  qed
  from a have inv: "sq_inv m" by simp
  from add_ok [OF inv ne] a split_dataset_eq [OF ne]
  show "sq_inv m'" by auto
  from add_ok [OF inv ne] a split_dataset_eq [OF ne]
  show "\<exists>episodes unfinished.
              SequentialReplayMemory_split_dataset (sq_unfinished_episode m @ dataset)
                = Inr (episodes, unfinished)
            \<and> suffix (sq_states m')
                 (sq_states m @ map (map tr_state)
                    (filter (storable (sq_unroll_steps m) (sq_max_size m)) episodes))
            \<and> added = length (filter (storable (sq_unroll_steps m) (sq_max_size m)) episodes)"
    by auto
next
  assume "sq_inv m \<and> sq_unfinished_episode m @ dataset \<noteq> []"
  then have "sq_inv m" "sq_unfinished_episode m @ dataset \<noteq> []" by simp_all
  from add_ok [OF this] show "\<exists>m' added. SequentialReplayMemory_add dataset m = Inr (m', added)"
    by blast
qed

text \<open>
  A memory of capacity 5 with the stream of seven transitions: the second episode does not
  fit beside the first, which is evicted whole.
\<close>

theorem episodic_capacity_witness:
  "sq_inv (SequentialReplayMemory_init 0 5 1 :: (nat, nat) SequentialReplayMemory)
   \<and> SequentialReplayMemory_add stream7 (SequentialReplayMemory_init 0 5 1)
       = Inr (\<lparr>sq_initial_size = 0, sq_max_size = 5, sq_unroll_steps = 1,
               sq_lengths = [3], sq_size = 3, sq_states = [[3, 4, 5]],
               sq_actions = [[0, 0, 0]], sq_rewards = [[0, 0, 0]],
               sq_next_states = [[4, 5, 6]], sq_absorbing = [[False, False, True]],
               sq_last = [[False, False, False]],
               sq_unfinished_episode = [(6, 0, 0, 7, False, False)]\<rparr>, 2)
   \<and> sq_inv \<lparr>sq_initial_size = 0, sq_max_size = 5, sq_unroll_steps = 1,
               sq_lengths = [3], sq_size = 3, sq_states = [[3, 4, 5 :: nat]],
               sq_actions = [[0, 0, 0 :: nat]], sq_rewards = [[0, 0, 0]],
               sq_next_states = [[4, 5, 6]], sq_absorbing = [[False, False, True]],
               sq_last = [[False, False, False]],
               sq_unfinished_episode = [(6, 0, 0, 7, False, False)]\<rparr>"
proof -
  let ?m = "SequentialReplayMemory_init 0 5 1 :: (nat, nat) SequentialReplayMemory"
  let ?m' = "\<lparr>sq_initial_size = 0, sq_max_size = 5, sq_unroll_steps = 1,
               sq_lengths = [3], sq_size = 3, sq_states = [[3, 4, 5 :: nat]],
               sq_actions = [[0, 0, 0 :: nat]], sq_rewards = [[0, 0, 0]],
               sq_next_states = [[4, 5, 6]], sq_absorbing = [[False, False, True]],
               sq_last = [[False, False, False]],
               sq_unfinished_episode = [(6, 0, 0, 7, False, False)]\<rparr>"
  have cap: "(0::int) \<le> 5" by simp
  have run: "SequentialReplayMemory_add stream7 ?m = Inr (?m', 2)"
    by (simp add: SequentialReplayMemory_add_def SequentialReplayMemory_init_def split_stream7
        SequentialReplayMemory_evict.simps
        tr_state_def tr_action_def tr_reward_def tr_next_state_def tr_absorbing_def tr_last_def)
  from episodic_capacity [of 5 0 1 ?m stream7 ?m' 2] cap have i0: "sq_inv ?m" by blast
  with episodic_capacity [of 5 0 1 ?m stream7 ?m' 2] run have "sq_inv ?m'" by blast
  with i0 run show ?thesis by simp
qed

lemma ReplayMemory_reset_is_init:
  "ReplayMemory_reset m = ReplayMemory_init (rm_initial_size m) (rm_max_size m)"
  by (simp add: ReplayMemory_reset_def ReplayMemory_init_def)

lemma SequentialReplayMemory_reset_keeps_unfinished:
  "SequentialReplayMemory_reset m
     = (SequentialReplayMemory_init (sq_initial_size m) (sq_max_size m) (sq_unroll_steps m))
         \<lparr>sq_unfinished_episode := sq_unfinished_episode m\<rparr>"
  by (simp add: SequentialReplayMemory_reset_def SequentialReplayMemory_init_def)

text \<open>
  Claim C9 (\<open>reset\<close> restores the initial state) fails for \<open>SequentialReplayMemory\<close>:
  \<open>reset\<close> does not clear \<open>unfinished_episode\<close>, which the constructor sets to the empty
  list. After \<open>add\<close> of one unflagged transition and \<open>reset\<close>, the size is \<open>0\<close> but the
  transition is still carried over: the next \<open>add\<close>, of one flagged transition, stores an
  episode of two transitions, where a new memory stores an episode of one.
\<close>

theorem reset_keeps_unfinished_episode:
  "SequentialReplayMemory_add [(0::nat, 0::nat, 0, 1, False, False)]
       (SequentialReplayMemory_init 0 10 1)
     = Inr (\<lparr>sq_initial_size = 0, sq_max_size = 10, sq_unroll_steps = 1,
             sq_lengths = [], sq_size = 0, sq_states = [], sq_actions = [], sq_rewards = [],
             sq_next_states = [], sq_absorbing = [], sq_last = [],
             sq_unfinished_episode = [(0, 0, 0, 1, False, False)]\<rparr>, 0)
   \<and> SequentialReplayMemory_reset
        \<lparr>sq_initial_size = 0, sq_max_size = 10, sq_unroll_steps = 1,
         sq_lengths = [], sq_size = 0, sq_states = [], sq_actions = [], sq_rewards = [],
         sq_next_states = [], sq_absorbing = [], sq_last = [],
         sq_unfinished_episode = [(0::nat, 0::nat, 0, 1, False, False)]\<rparr>
     = \<lparr>sq_initial_size = 0, sq_max_size = 10, sq_unroll_steps = 1,
        sq_lengths = [], sq_size = 0, sq_states = [], sq_actions = [], sq_rewards = [],
        sq_next_states = [], sq_absorbing = [], sq_last = [],
        sq_unfinished_episode = [(0, 0, 0, 1, False, False)]\<rparr>
   \<and> SequentialReplayMemory_add [(1, 0, 0, 2, True, False)]
        \<lparr>sq_initial_size = 0, sq_max_size = 10, sq_unroll_steps = 1,
         sq_lengths = [], sq_size = 0, sq_states = [], sq_actions = [], sq_rewards = [],
         sq_next_states = [], sq_absorbing = [], sq_last = [],
         sq_unfinished_episode = [(0::nat, 0::nat, 0, 1, False, False)]\<rparr>
     = Inr (\<lparr>sq_initial_size = 0, sq_max_size = 10, sq_unroll_steps = 1,
             sq_lengths = [2], sq_size = 2, sq_states = [[0, 1]], sq_actions = [[0, 0]],
             sq_rewards = [[0, 0]], sq_next_states = [[1, 2]],
             sq_absorbing = [[False, True]], sq_last = [[False, False]],
             sq_unfinished_episode = []\<rparr>, 1)
   \<and> SequentialReplayMemory_add [(1::nat, 0::nat, 0, 2, True, False)]
        (SequentialReplayMemory_init 0 10 1)
     = Inr (\<lparr>sq_initial_size = 0, sq_max_size = 10, sq_unroll_steps = 1,
             sq_lengths = [1], sq_size = 1, sq_states = [[1]], sq_actions = [[0]],
             sq_rewards = [[0]], sq_next_states = [[2]],
             sq_absorbing = [[True]], sq_last = [[False]],
             sq_unfinished_episode = []\<rparr>, 1)"
  by (simp add: SequentialReplayMemory_add_def SequentialReplayMemory_init_def
      SequentialReplayMemory_reset_def SequentialReplayMemory_split_dataset_def
      SequentialReplayMemory_evict.simps py_slice_def Let_def
      upt_rec [of 0] upt_rec [of 1] upt_rec [of 2] numeral_2_eq_2
      tr_state_def tr_action_def tr_reward_def tr_next_state_def tr_absorbing_def tr_last_def)

end
